theory Spec2Isabelle
  imports Main
begin

section \<open>Sudoku-Lite: the puzzle engine of \<open>src/utils/sudoku.ts\<close>\<close>

text \<open>
  The engine works on \<open>number[][]\<close> grids that it reads and writes in place. The
  embedding keeps the JavaScript semantics of array access that the code relies on:
  \<^item> reading \<open>a[i]\<close> beyond the end of an array yields \<open>undefined\<close>, which is never
    \<open>===\<close> to a number; a cell is therefore an \<open>int option\<close>, \<open>None\<close> standing for
    \<open>undefined\<close>;
  \<^item> reading a property of \<open>undefined\<close> (\<open>board[row][i]\<close> with \<open>row\<close> not a row of the
    board) throws a \<open>TypeError\<close>;
  \<^item> writing \<open>a[i] = v\<close> beyond the end extends the array, the gap reading as
    \<open>undefined\<close>.
  Indices are natural numbers: every index the engine computes is a loop counter.
  Mutation is explicit state passing: a function that writes to a board returns the board
  it leaves behind. \<open>Math.random\<close> is an explicit source of draws that is consumed and
  returned.
\<close>

subsection \<open>Data model\<close>

type_synonym cell = "int option"
type_synonym SudokuBoard = "cell list list"

datatype Strategy = NakedSingle | Backtracking | Advanced

text \<open>How a call can end without returning: the two exceptions the engine can throw
  (\<open>TypeError\<close> on a read through \<open>undefined\<close>, \<open>RangeError\<close> when the call stack is
  exhausted), and the recursion budget of the solver and the filler running out.\<close>

datatype failure = TypeError | RangeError | OutOfFuel

text \<open>\<open>a[i]\<close> on an array of cells.\<close>

definition arrayGet :: "cell list \<Rightarrow> nat \<Rightarrow> cell" where
  "arrayGet xs i = (if i < length xs then xs ! i else None)"

text \<open>\<open>a[i] = v\<close> on an array of cells.\<close>

definition arraySet :: "cell list \<Rightarrow> nat \<Rightarrow> cell \<Rightarrow> cell list" where
  "arraySet xs i v =
     (if i < length xs then xs[i := v] else xs @ replicate (i - length xs) None @ [v])"

text \<open>\<open>board[i][j]\<close> and \<open>board[i][j] = v\<close>, for \<open>i\<close> a row of the board (\<open>i < board.length\<close>),
  which is the case at every use below except the one in \<open>isValidPlacement\<close>, where the
  other case is written out.\<close>

definition cellAt :: "SudokuBoard \<Rightarrow> nat \<Rightarrow> nat \<Rightarrow> cell" where
  "cellAt board i j = arrayGet (board ! i) j"

definition setCell :: "SudokuBoard \<Rightarrow> nat \<Rightarrow> nat \<Rightarrow> cell \<Rightarrow> SudokuBoard" where
  "setCell board i j v = board[i := arraySet (board ! i) j v]"

definition createEmptyBoard :: "nat \<Rightarrow> SudokuBoard" where
  "createEmptyBoard sz = replicate sz (replicate sz (Some 0))"

definition boardCopy :: "SudokuBoard \<Rightarrow> SudokuBoard" where
  "boardCopy board = map (\<lambda>row. row) board"

subsection \<open>Placement and validity predicates\<close>

text \<open>The two scanning loops of \<open>isValidPlacement\<close>, for \<open>row\<close> a row of the board.\<close>

definition rowHas :: "SudokuBoard \<Rightarrow> nat \<Rightarrow> int \<Rightarrow> bool" where
  "rowHas board row num = list_ex (\<lambda>i. cellAt board row i = Some num) [0..<length board]"

definition colHas :: "SudokuBoard \<Rightarrow> nat \<Rightarrow> int \<Rightarrow> bool" where
  "colHas board col num = list_ex (\<lambda>i. cellAt board i col = Some num) [0..<length board]"

text \<open>\<open>isValidPlacement\<close>: when the board has rows and \<open>row\<close> is not one of them, the first
  iteration of the row loop reads \<open>board[row][0]\<close> and throws.\<close>

definition isValidPlacement :: "SudokuBoard \<Rightarrow> nat \<Rightarrow> nat \<Rightarrow> int \<Rightarrow> failure + bool" where
  "isValidPlacement board row col num =
     (if 0 < length board \<and> \<not> row < length board then Inl TypeError
      else if rowHas board row num then Inr False
      else if colHas board col num then Inr False
      else Inr True)"

text \<open>The inner loop of \<open>isBoardValid\<close>: scan a line of cells with the set of values seen.\<close>

fun scanLine :: "cell set \<Rightarrow> cell list \<Rightarrow> bool" where
  "scanLine seen [] = True"
| "scanLine seen (c # cs) =
     (if c \<noteq> Some 0 then (if c \<in> seen then False else scanLine (insert c seen) cs)
      else scanLine seen cs)"

definition rowCells :: "SudokuBoard \<Rightarrow> nat \<Rightarrow> cell list" where
  "rowCells board i = map (\<lambda>j. cellAt board i j) [0..<length board]"

definition colCells :: "SudokuBoard \<Rightarrow> nat \<Rightarrow> cell list" where
  "colCells board j = map (\<lambda>i. cellAt board i j) [0..<length board]"

definition isBoardValid :: "SudokuBoard \<Rightarrow> bool" where
  "isBoardValid board =
     (if list_ex (\<lambda>i. \<not> scanLine {} (rowCells board i)) [0..<length board] then False
      else if list_ex (\<lambda>j. \<not> scanLine {} (colCells board j)) [0..<length board] then False
      else True)"

text \<open>The claim's reading of validity, in the spec's words: no row and no column of the
  board, taken whole, holds a non-zero value twice.\<close>

definition specColumn :: "SudokuBoard \<Rightarrow> nat \<Rightarrow> cell list" where
  "specColumn board j = map (\<lambda>row. row ! j) (filter (\<lambda>row. j < length row) board)"

definition specNoDuplicates :: "SudokuBoard \<Rightarrow> bool" where
  "specNoDuplicates board =
     (list_all (\<lambda>row. distinct (filter (\<lambda>c. c \<noteq> Some 0) row)) board \<and>
      list_all (\<lambda>j. distinct (filter (\<lambda>c. c \<noteq> Some 0) (specColumn board j)))
        [0..<foldr max (map length board) 0])"

subsection \<open>The random source and \<open>shuffleArray\<close>\<close>

text \<open>
  \<open>Math.floor(Math.random() * m)\<close> is an index below \<open>m\<close>. The random source is the list of
  the draws still to come, each reduced modulo \<open>m\<close> when it is used; a source that has run
  out keeps answering 0. Every finite run of the engine under any behaviour of
  \<open>Math.random\<close> is the run on one such list.
\<close>

type_synonym rng = "nat list"

definition randomIndex :: "nat \<Rightarrow> rng \<Rightarrow> nat \<times> rng" where
  "randomIndex m rng = (case rng of [] \<Rightarrow> (0, []) | r # rest \<Rightarrow> (r mod m, rest))"

text \<open>The loop of \<open>shuffleArray\<close>, from index \<open>i\<close> down to 1.\<close>

fun shuffleFrom :: "nat \<Rightarrow> 'a list \<Rightarrow> rng \<Rightarrow> 'a list \<times> rng" where
  "shuffleFrom 0 xs rng = (xs, rng)"
| "shuffleFrom (Suc k) xs rng =
     (case randomIndex (Suc k + 1) rng of
        (j, rng') \<Rightarrow> shuffleFrom k (xs[Suc k := xs ! j, j := xs ! Suc k]) rng')"

definition shuffleArray :: "'a list \<Rightarrow> rng \<Rightarrow> 'a list \<times> rng" where
  "shuffleArray xs rng = shuffleFrom (length xs - 1) xs rng"

subsection \<open>Solver and filler\<close>

text \<open>All coordinates of the \<open>sz\<close> by \<open>sz\<close> window, row by row: the order of the nested
  \<open>for\<close> loops over \<open>i\<close> and \<open>j\<close>.\<close>

definition allCells :: "nat \<Rightarrow> (nat \<times> nat) list" where
  "allCells sz = List.product [0..<sz] [0..<sz]"

definition findEmptyCell :: "SudokuBoard \<Rightarrow> (nat \<times> nat) option" where
  "findEmptyCell board =
     find (\<lambda>(i, j). cellAt board i j = Some 0) (allCells (length board))"

text \<open>The numbers 1 to \<open>sz\<close> in ascending order.\<close>

definition numsUpTo :: "nat \<Rightarrow> int list" where
  "numsUpTo sz = map (\<lambda>i. int i + 1) [0..<sz]"

text \<open>The candidate loop of \<open>solveWithStrategies\<close>.\<close>

fun findCandidates :: "SudokuBoard \<Rightarrow> nat \<Rightarrow> nat \<Rightarrow> int list \<Rightarrow> failure + int list" where
  "findCandidates board row col [] = Inr []"
| "findCandidates board row col (num # nums) =
     (case isValidPlacement board row col num of
        Inl e \<Rightarrow> Inl e
      | Inr ok \<Rightarrow>
          (case findCandidates board row col nums of
             Inl e \<Rightarrow> Inl e
           | Inr cs \<Rightarrow> Inr (if ok then num # cs else cs)))"

definition trackStrategies :: "nat \<Rightarrow> Strategy set \<Rightarrow> Strategy set" where
  "trackStrategies n used =
     (if n = 1 then insert NakedSingle used
      else if 1 < n then insert Backtracking used
      else used)"

text \<open>
  \<open>solveWithStrategies\<close> and its loop over the candidates. The first argument bounds the
  depth of the recursion; the result holds the return value, the board as the call leaves
  it and the accumulator as the call leaves it.
\<close>

fun solveWithStrategies ::
    "nat \<Rightarrow> SudokuBoard \<Rightarrow> Strategy set \<Rightarrow> failure + (bool \<times> SudokuBoard \<times> Strategy set)"
  and solveCandidates ::
    "nat \<Rightarrow> nat \<Rightarrow> nat \<Rightarrow> int list \<Rightarrow> SudokuBoard \<Rightarrow> Strategy set
       \<Rightarrow> failure + (bool \<times> SudokuBoard \<times> Strategy set)"
where
  "solveWithStrategies 0 board used = Inl OutOfFuel"
| "solveWithStrategies (Suc fuel) board used =
     (case findEmptyCell board of
        None \<Rightarrow> Inr (True, board, used)
      | Some (row, col) \<Rightarrow>
          (case findCandidates board row col (numsUpTo (length board)) of
             Inl e \<Rightarrow> Inl e
           | Inr candidates \<Rightarrow>
               solveCandidates fuel row col candidates board
                 (trackStrategies (length candidates) used)))"
| "solveCandidates fuel row col [] board used = Inr (False, board, used)"
| "solveCandidates fuel row col (num # rest) board used =
     (case solveWithStrategies fuel (setCell board row col (Some num)) used of
        Inl e \<Rightarrow> Inl e
      | Inr (ok, board', used') \<Rightarrow>
          if ok then Inr (True, board', used')
          else solveCandidates fuel row col rest (setCell board' row col (Some 0)) used')"


definition tagsOf :: "nat list \<Rightarrow> Strategy set" where
  "tagsOf visits =
     (if list_ex (\<lambda>n. n = 1) visits then {NakedSingle} else {}) \<union>
     (if list_ex (\<lambda>n. 1 < n) visits then {Backtracking} else {})"

text \<open>\<open>fillBoard\<close> and its loop over the shuffled numbers.\<close>

fun fillBoard :: "nat \<Rightarrow> SudokuBoard \<Rightarrow> rng \<Rightarrow> failure + (bool \<times> SudokuBoard \<times> rng)"
  and fillNums ::
    "nat \<Rightarrow> nat \<Rightarrow> nat \<Rightarrow> int list \<Rightarrow> SudokuBoard \<Rightarrow> rng \<Rightarrow> failure + (bool \<times> SudokuBoard \<times> rng)"
where
  "fillBoard 0 board rng = Inl OutOfFuel"
| "fillBoard (Suc fuel) board rng =
     (case findEmptyCell board of
        None \<Rightarrow> Inr (True, board, rng)
      | Some (row, col) \<Rightarrow>
          (case shuffleArray (numsUpTo (length board)) rng of
             (nums, rng') \<Rightarrow> fillNums fuel row col nums board rng'))"
| "fillNums fuel row col [] board rng = Inr (False, board, rng)"
| "fillNums fuel row col (num # rest) board rng =
     (case isValidPlacement board row col num of
        Inl e \<Rightarrow> Inl e
      | Inr valid \<Rightarrow>
          if valid then
            (case fillBoard fuel (setCell board row col (Some num)) rng of
               Inl e \<Rightarrow> Inl e
             | Inr (ok, board', rng') \<Rightarrow>
                 if ok then Inr (True, board', rng')
                 else fillNums fuel row col rest (setCell board' row col (Some 0)) rng')
          else fillNums fuel row col rest board rng)"

text \<open>\<open>generateBoard\<close> ignores what \<open>fillBoard\<close> returns and hands back the board.\<close>

definition generateBoard :: "nat \<Rightarrow> nat \<Rightarrow> rng \<Rightarrow> failure + (SudokuBoard \<times> rng)" where
  "generateBoard fuel sz rng =
     (case fillBoard fuel (createEmptyBoard sz) rng of
        Inl e \<Rightarrow> Inl e
      | Inr (ok, board, rng') \<Rightarrow> Inr (board, rng'))"

subsection \<open>Puzzle generator\<close>

text \<open>
  The targets are \<open>Math.floor(totalCells * 0.4)\<close>, \<open>Math.floor(totalCells * 0.6)\<close> and
  \<open>Math.floor(totalCells * 0.75)\<close>. They are written here with exact integer division:
  the double nearest to 0.4 (to 0.6) is off by less than half a unit in the last place
  relative to any product below \<open>2^53\<close>, so the rounded product is the exact integer
  whenever the exact product is one, and the floor is the same otherwise; 0.75 is a
  double. A difficulty is the string the caller passes.
\<close>

definition targetEmptyCells :: "nat \<Rightarrow> string \<Rightarrow> nat" where
  "targetEmptyCells totalCells difficulty =
     (if difficulty = ''easy'' then (totalCells * 2) div 5
      else if difficulty = ''medium'' then (totalCells * 3) div 5
      else if difficulty = ''hard'' then (totalCells * 3) div 4
      else (totalCells * 2) div 5)"

text \<open>The \<open>while\<close> loop of \<open>removeNumbers\<close>; \<open>cells.pop()\<close> takes the last coordinate.\<close>

function removeLoop ::
    "nat \<Rightarrow> nat \<Rightarrow> nat \<Rightarrow> (nat \<times> nat) list \<Rightarrow> SudokuBoard \<Rightarrow> nat \<Rightarrow> nat \<Rightarrow> failure + SudokuBoard"
where
  "removeLoop fuel targetEmpty maxAttempts cells puzzle removedCells attempts =
     (if removedCells < targetEmpty \<and> cells \<noteq> [] \<and> attempts < maxAttempts then
        (case last cells of
           (row, col) \<Rightarrow>
             (case solveWithStrategies fuel (boardCopy (setCell puzzle row col (Some 0))) {} of
                Inl e \<Rightarrow> Inl e
              | Inr (ok, solved, used) \<Rightarrow>
                  if ok then
                    removeLoop fuel targetEmpty maxAttempts (butlast cells)
                      (setCell puzzle row col (Some 0)) (removedCells + 1) (attempts + 1)
                  else
                    removeLoop fuel targetEmpty maxAttempts (butlast cells)
                      (setCell (setCell puzzle row col (Some 0)) row col (cellAt puzzle row col))
                      removedCells (attempts + 1)))
      else Inr puzzle)"
  by pat_completeness auto
termination
  by (relation "measure (\<lambda>(fuel, targetEmpty, maxAttempts, cells, rest). length cells)") auto

declare removeLoop.simps [simp del]

definition removeNumbers ::
    "nat \<Rightarrow> SudokuBoard \<Rightarrow> string \<Rightarrow> rng \<Rightarrow> failure + (SudokuBoard \<times> rng)" where
  "removeNumbers fuel board difficulty rng =
     (case shuffleArray (allCells (length board)) rng of
        (cells, rng') \<Rightarrow>
          (case removeLoop fuel (targetEmptyCells (length board * length board) difficulty)
                  (length board * length board * 2) cells (boardCopy board) 0 0 of
             Inl e \<Rightarrow> Inl e
           | Inr puzzle \<Rightarrow> Inr (puzzle, rng')))"

text \<open>\<open>getStrategySet\<close> and \<open>getTargetCellsToRemove\<close>. The \<open>switch\<close> of the latter has no
  default: for any other difficulty the function returns \<open>undefined\<close>, here \<open>None\<close>.\<close>

definition getStrategySet :: "string \<Rightarrow> Strategy set" where
  "getStrategySet difficulty =
     (if difficulty = ''easy'' then {NakedSingle}
      else if difficulty = ''medium'' then {NakedSingle, Backtracking}
      else {NakedSingle, Backtracking, Advanced})"








subsection \<open>\<open>completeBoard\<close>\<close>

text \<open>The inner loop: place the first candidate that \<open>isValidPlacement\<close> accepts. The
  result is the board and the flag \<open>filled\<close>.\<close>

fun placeFirstValid ::
    "SudokuBoard \<Rightarrow> nat \<Rightarrow> nat \<Rightarrow> int list \<Rightarrow> failure + (SudokuBoard \<times> bool)" where
  "placeFirstValid board row col [] = Inr (board, False)"
| "placeFirstValid board row col (num # rest) =
     (case isValidPlacement board row col num of
        Inl e \<Rightarrow> Inl e
      | Inr valid \<Rightarrow>
          if valid then Inr (setCell board row col (Some num), True)
          else placeFirstValid board row col rest)"

text \<open>The loop over the empty cells found up front: \<open>None\<close> when a cell could not be
  filled.\<close>

fun fillEmptyCells ::
    "nat \<Rightarrow> (nat \<times> nat) list \<Rightarrow> SudokuBoard \<Rightarrow> rng \<Rightarrow> failure + (SudokuBoard option \<times> rng)" where
  "fillEmptyCells sz [] completedBoard rng = Inr (Some completedBoard, rng)"
| "fillEmptyCells sz ((row, col) # cells) completedBoard rng =
     (case shuffleArray (numsUpTo sz) rng of
        (candidates, rng') \<Rightarrow>
          (case placeFirstValid completedBoard row col candidates of
             Inl e \<Rightarrow> Inl e
           | Inr (completedBoard', filled) \<Rightarrow>
               if \<not> filled then Inr (None, rng')
               else fillEmptyCells sz cells completedBoard' rng'))"

text \<open>
  \<open>completeBoard\<close> restarts itself on a fresh copy of its input whenever a cell could not
  be filled. Every restart is a call nested in the one before it (\<open>return
  completeBoard(boardCopy(board))\<close> inside the loop), nothing bounds their number, and the
  call stack of the engine is finite: the first argument is the number of nested calls of
  \<open>completeBoard\<close> the stack has room for, and the call that exceeds it throws the engine's
  \<open>RangeError\<close>.
\<close>

fun completeBoard :: "nat \<Rightarrow> SudokuBoard \<Rightarrow> rng \<Rightarrow> failure + (SudokuBoard \<times> rng)" where
  "completeBoard 0 board rng = Inl RangeError"
| "completeBoard (Suc stack) board rng =
     (case fillEmptyCells (length board)
             (filter (\<lambda>(i, j). cellAt (boardCopy board) i j = Some 0) (allCells (length board)))
             (boardCopy board) rng of
        Inl e \<Rightarrow> Inl e
      | Inr (None, rng') \<Rightarrow> completeBoard stack (boardCopy board) rng'
      | Inr (Some completedBoard, rng') \<Rightarrow> Inr (completedBoard, rng'))"

section \<open>Character tables of \<open>src/utils/hebrewChars.ts\<close>\<close>

text \<open>A \<open>char\<close> field is the list of the Unicode code points of the string; a colour is
  an ASCII string; a variant is the string the caller passes.\<close>

record HebrewChar =
  char :: "nat list"
  color :: string
  val :: int

definition mk :: "nat list \<Rightarrow> string \<Rightarrow> int \<Rightarrow> HebrewChar" where
  "mk c col v = \<lparr>char = c, color = col, val = v\<rparr>"

definition FULL_CHINESE_CHARS :: "HebrewChar list" where
  "FULL_CHINESE_CHARS =
     [mk [0x4E00] ''#FF0000'' 1, mk [0x4E8C] ''#FFA500'' 2, mk [0x4E09] ''#FFFF00'' 3,
      mk [0x4E94] ''#00EE00'' 4, mk [0x516D] ''#4169E1'' 5, mk [0x4E03] ''#FF00FF'' 6,
      mk [0x516B] ''#23dbcf'' 7, mk [0x4E5D] ''#945206'' 8, mk [0x5341] ''#404040'' 9]"

definition FULL_HEBREW_CHARS :: "HebrewChar list" where
  "FULL_HEBREW_CHARS =
     [mk [0x5D0] ''#FF0000'' 1, mk [0x5D1] ''#FFA500'' 2, mk [0x5D2] ''#FFFF00'' 3,
      mk [0x5D3] ''#00EE00'' 4, mk [0x5D4] ''#4169E1'' 5, mk [0x5DE] ''#FF00FF'' 6,
      mk [0x5E6] ''#23dbcf'' 7, mk [0x5E9] ''#945206'' 8, mk [0x5EA] ''#404040'' 9]"

definition COLOR_CHARS :: "HebrewChar list" where
  "COLOR_CHARS =
     [mk [0x25A0] ''#FF0000'' 1, mk [0x25A0] ''#FFA500'' 2, mk [0x25A0] ''#FFFF00'' 3,
      mk [0x25A0] ''#00EE00'' 4, mk [0x25A0] ''#4169E1'' 5, mk [0x25A0] ''#FF00FF'' 6,
      mk [0x25A0] ''#23dbcf'' 7, mk [0x25A0] ''#945206'' 8, mk [0x25A0] ''#404040'' 9]"

definition sourceOf :: "string \<Rightarrow> HebrewChar list" where
  "sourceOf variant =
     (if variant = ''chinese'' then FULL_CHINESE_CHARS
      else if variant = ''alphabet'' then FULL_HEBREW_CHARS
      else COLOR_CHARS)"

definition getHebrewChar :: "int \<Rightarrow> string \<Rightarrow> HebrewChar" where
  "getHebrewChar v variant =
     (case find (\<lambda>c. val c = v) (sourceOf variant) of
        None \<Rightarrow> \<lparr>char = [], color = ''#000000'', val = 0\<rparr>
      | Some c \<Rightarrow> c)"

section \<open>Boards as objects: which arrays \<open>removeNumbers\<close> writes\<close>

text \<open>
  Whether a function changes the board it is handed depends on which arrays are shared,
  and a board passed by value cannot tell. For this question a board is the array of the
  addresses of its rows, the rows live in a store (the list of all row arrays allocated so
  far, an address being an index into it), and \<open>board[i][j] = v\<close> writes to the row at
  address \<open>board[i]\<close>. The engine never assigns to \<open>board[i]\<close> itself, so the outer array
  is a plain list of addresses. The functions below are the same code as above, read on
  the store.
\<close>

type_synonym store = "cell list list"
type_synonym boardRef = "nat list"

text \<open>The board a reference denotes in a store.\<close>

definition deref :: "store \<Rightarrow> boardRef \<Rightarrow> SudokuBoard" where
  "deref st board = map (\<lambda>a. st ! a) board"

text \<open>\<open>board.map(row => [...row])\<close>: one fresh row array per row, filled with the cells
  of the row.\<close>

definition boardCopyS :: "store \<Rightarrow> boardRef \<Rightarrow> boardRef \<times> store" where
  "boardCopyS st board =
     ([length st..<length st + length board], st @ map (\<lambda>a. st ! a) board)"

definition setCellS :: "store \<Rightarrow> boardRef \<Rightarrow> nat \<Rightarrow> nat \<Rightarrow> cell \<Rightarrow> store" where
  "setCellS st board i j v = st[board ! i := arraySet (st ! (board ! i)) j v]"

definition cellAtS :: "store \<Rightarrow> boardRef \<Rightarrow> nat \<Rightarrow> nat \<Rightarrow> cell" where
  "cellAtS st board i j = arrayGet (st ! (board ! i)) j"

fun solveWithStrategiesS ::
    "nat \<Rightarrow> store \<Rightarrow> boardRef \<Rightarrow> Strategy set \<Rightarrow> failure + (bool \<times> store \<times> Strategy set)"
  and solveCandidatesS ::
    "nat \<Rightarrow> nat \<Rightarrow> nat \<Rightarrow> int list \<Rightarrow> store \<Rightarrow> boardRef \<Rightarrow> Strategy set
       \<Rightarrow> failure + (bool \<times> store \<times> Strategy set)"
where
  "solveWithStrategiesS 0 st board used = Inl OutOfFuel"
| "solveWithStrategiesS (Suc fuel) st board used =
     (case findEmptyCell (deref st board) of
        None \<Rightarrow> Inr (True, st, used)
      | Some (row, col) \<Rightarrow>
          (case findCandidates (deref st board) row col (numsUpTo (length board)) of
             Inl e \<Rightarrow> Inl e
           | Inr candidates \<Rightarrow>
               solveCandidatesS fuel row col candidates st board
                 (trackStrategies (length candidates) used)))"
| "solveCandidatesS fuel row col [] st board used = Inr (False, st, used)"
| "solveCandidatesS fuel row col (num # rest) st board used =
     (case solveWithStrategiesS fuel (setCellS st board row col (Some num)) board used of
        Inl e \<Rightarrow> Inl e
      | Inr (ok, st', used') \<Rightarrow>
          if ok then Inr (True, st', used')
          else solveCandidatesS fuel row col rest (setCellS st' board row col (Some 0)) board
                 used')"

function removeLoopS ::
    "nat \<Rightarrow> nat \<Rightarrow> nat \<Rightarrow> (nat \<times> nat) list \<Rightarrow> store \<Rightarrow> boardRef \<Rightarrow> nat \<Rightarrow> nat \<Rightarrow> failure + store"
where
  "removeLoopS fuel targetEmpty maxAttempts cells st puzzle removedCells attempts =
     (if removedCells < targetEmpty \<and> cells \<noteq> [] \<and> attempts < maxAttempts then
        (case last cells of
           (row, col) \<Rightarrow>
             (case boardCopyS (setCellS st puzzle row col (Some 0)) puzzle of
                (puzzleCopy, st1) \<Rightarrow>
                  (case solveWithStrategiesS fuel st1 puzzleCopy {} of
                     Inl e \<Rightarrow> Inl e
                   | Inr (ok, st2, used) \<Rightarrow>
                       if ok then
                         removeLoopS fuel targetEmpty maxAttempts (butlast cells) st2 puzzle
                           (removedCells + 1) (attempts + 1)
                       else
                         removeLoopS fuel targetEmpty maxAttempts (butlast cells)
                           (setCellS st2 puzzle row col (cellAtS st puzzle row col)) puzzle
                           removedCells (attempts + 1))))
      else Inr st)"
  by pat_completeness auto
termination
  by (relation "measure (\<lambda>(fuel, targetEmpty, maxAttempts, cells, rest). length cells)") auto

declare removeLoopS.simps [simp del]

text \<open>\<open>removeNumbers\<close> on the store: it returns the reference of the puzzle and the store
  it leaves.\<close>

definition removeNumbersS ::
    "nat \<Rightarrow> store \<Rightarrow> boardRef \<Rightarrow> string \<Rightarrow> rng \<Rightarrow> failure + (boardRef \<times> store \<times> rng)" where
  "removeNumbersS fuel st board difficulty rng =
     (case boardCopyS st board of
        (puzzle, st1) \<Rightarrow>
          (case shuffleArray (allCells (length board)) rng of
             (cells, rng') \<Rightarrow>
               (case removeLoopS fuel (targetEmptyCells (length board * length board) difficulty)
                       (length board * length board * 2) cells st1 puzzle 0 0 of
                  Inl e \<Rightarrow> Inl e
                | Inr st' \<Rightarrow> Inr (puzzle, st', rng'))))"

section \<open>Notions used to state the properties\<close>

text \<open>The number of empty cells that \<open>findEmptyCell\<close> can see.\<close>

definition emptyCount :: "SudokuBoard \<Rightarrow> nat" where
  "emptyCount board =
     length (filter (\<lambda>(i, j). cellAt board i j = Some 0) (allCells (length board)))"

text \<open>A board with \<open>n\<close> rows of \<open>n\<close> cells each.\<close>

definition square :: "nat \<Rightarrow> SudokuBoard \<Rightarrow> bool" where
  "square n board \<longleftrightarrow> length board = n \<and> list_all (\<lambda>row. length row = n) board"

text \<open>The claim's reading of a valid placement, in the spec's words: the value occurs at
  no cell of the row other than the target and at no cell of the column other than the
  target.\<close>

definition specValidPlacement :: "SudokuBoard \<Rightarrow> nat \<Rightarrow> nat \<Rightarrow> int \<Rightarrow> bool" where
  "specValidPlacement board row col v \<longleftrightarrow>
     list_all (\<lambda>j. j = col \<or> board ! row ! j \<noteq> Some v) [0..<length (board ! row)] \<and>
     list_all (\<lambda>i. i = row \<or> arrayGet (board ! i) col \<noteq> Some v) [0..<length board]"

text \<open>\<open>out\<close> is \<open>board\<close> with some cells replaced by 0: the same rows, and every cell of
  \<open>out\<close> holds 0 or what \<open>board\<close> holds there.\<close>

definition agreesOffZero :: "SudokuBoard \<Rightarrow> SudokuBoard \<Rightarrow> bool" where
  "agreesOffZero out board \<longleftrightarrow>
     length out = length board \<and>
     (\<forall>i<length board. \<forall>j. cellAt out i j = Some 0 \<or> cellAt out i j = cellAt board i j)"

text \<open>The number of cells of the board that hold 0, as the tests count them:
  \<open>board.flat().filter(cell => cell === 0).length\<close>.\<close>

definition zeroCells :: "SudokuBoard \<Rightarrow> nat" where
  "zeroCells board = length (filter (\<lambda>c. c = Some 0) (concat board))"




text \<open>Every cell of the board holds a value from 1 to \<open>n\<close>.\<close>

definition cellsWithin :: "nat \<Rightarrow> SudokuBoard \<Rightarrow> bool" where
  "cellsWithin n board \<longleftrightarrow>
     list_all (list_all (\<lambda>c. case c of None \<Rightarrow> False | Some v \<Rightarrow> 1 \<le> v \<and> v \<le> int n)) board"

text \<open>A full valid board of every size, used to show that the search of \<open>fillBoard\<close> has
  something to find: row \<open>i\<close> is the numbers 1 to \<open>n\<close> rotated by \<open>i\<close>.\<close>

definition cyclicBoard :: "nat \<Rightarrow> SudokuBoard" where
  "cyclicBoard n = map (\<lambda>i. map (\<lambda>j. Some (int ((i + j) mod n) + 1)) [0..<n]) [0..<n]"

section \<open>Verification\<close>

subsection \<open>Reading and writing cells\<close>

lemma allCells_set: "set (allCells n) = {(i, j). i < n \<and> j < n}"
  by (auto simp: allCells_def)

lemma findEmptyCell_Some:
  assumes "findEmptyCell board = Some (r, c)"
  shows "r < length board" "c < length board" "cellAt board r c = Some 0"
        "c < length (board ! r)" "board ! r ! c = Some 0"
proof -
  from assms have "(r, c) \<in> set (allCells (length board)) \<and> cellAt board r c = Some 0"
    unfolding findEmptyCell_def by (auto simp: find_Some_iff in_set_conv_nth)
  then show "r < length board" "c < length board" "cellAt board r c = Some 0"
    by (auto simp: allCells_set)
  then show "c < length (board ! r)" "board ! r ! c = Some 0"
    by (auto simp: cellAt_def arrayGet_def split: if_splits)
qed

lemma findEmptyCell_None:
  "findEmptyCell board = None \<longleftrightarrow>
     (\<forall>i<length board. \<forall>j<length board. cellAt board i j \<noteq> Some 0)"
  unfolding findEmptyCell_def by (auto simp: find_None_iff allCells_set)

lemma length_setCell [simp]: "length (setCell board r c v) = length board"
  by (simp add: setCell_def)

lemma setCell_restore:
  assumes "r < length board" "c < length (board ! r)" "board ! r ! c = old"
  shows "setCell (setCell board r c v) r c old = board"
proof -
  have "(board ! r)[c := old] = board ! r"
    using assms by (simp add: list_update_same_conv)
  then show ?thesis
    using assms by (simp add: setCell_def arraySet_def)
qed

lemma cellAt_setCell:
  assumes "r < length board" "c < length (board ! r)" "i < length board"
  shows "cellAt (setCell board r c v) i j = (if i = r \<and> j = c then v else cellAt board i j)"
  using assms by (auto simp: cellAt_def setCell_def arraySet_def arrayGet_def nth_list_update)

lemma boardCopy_id [simp]: "boardCopy board = board"
  by (simp add: boardCopy_def)

subsection \<open>A failed search leaves the board as it found it\<close>

lemma solveCandidates_restores:
  assumes IH: "\<And>board used b' u'. solveWithStrategies fuel board used = Inr (False, b', u') \<Longrightarrow> b' = board"
  shows "solveCandidates fuel r c cands board used = Inr (False, b', u') \<Longrightarrow>
       r < length board \<Longrightarrow> c < length (board ! r) \<Longrightarrow> board ! r ! c = Some 0 \<Longrightarrow> b' = board"
proof (induction cands arbitrary: used)
  case Nil
  then show ?case by simp
next
  case (Cons num rest)
  from Cons.prems(1) obtain ok b1 u1 where
    s: "solveWithStrategies fuel (setCell board r c (Some num)) used = Inr (ok, b1, u1)"
    by (auto split: sum.splits)
  with Cons.prems(1) have nok: "\<not> ok"
    and rest: "solveCandidates fuel r c rest (setCell b1 r c (Some 0)) u1 = Inr (False, b', u')"
    by (auto split: if_splits)
  from IH s nok have "b1 = setCell board r c (Some num)" by simp
  then have "setCell b1 r c (Some 0) = board"
    using Cons.prems by (simp add: setCell_restore)
  with rest Cons.IH Cons.prems show ?case by simp
qed

lemma solve_restores:
  "solveWithStrategies fuel board used = Inr (False, b', u') \<Longrightarrow> b' = board"
proof (induction fuel arbitrary: board used b' u')
  case 0
  then show ?case by simp
next
  case (Suc fuel)
  show ?case
  proof (cases "findEmptyCell board")
    case None
    with Suc.prems show ?thesis by simp
  next
    case (Some rc)
    obtain r c where rc: "rc = (r, c)" by (cases rc)
    from Suc.prems Some rc obtain cands where sc:
      "solveCandidates fuel r c cands board (trackStrategies (length cands) used) = Inr (False, b', u')"
      by (auto split: sum.splits)
    note e = findEmptyCell_Some [OF Some [unfolded rc]]
    show ?thesis
      by (rule solveCandidates_restores [OF Suc.IH sc e(1) e(4) e(5)])
  qed
qed

lemma fillNums_restores:
  assumes IH: "\<And>board rng b' rng'. fillBoard fuel board rng = Inr (False, b', rng') \<Longrightarrow> b' = board"
  shows "fillNums fuel r c nums board rng = Inr (False, b', rng') \<Longrightarrow>
       r < length board \<Longrightarrow> c < length (board ! r) \<Longrightarrow> board ! r ! c = Some 0 \<Longrightarrow> b' = board"
proof (induction nums arbitrary: rng)
  case Nil
  then show ?case by simp
next
  case (Cons num rest)
  from Cons.prems(1) obtain valid where v: "isValidPlacement board r c num = Inr valid"
    by (auto split: sum.splits)
  show ?case
  proof (cases valid)
    case False
    with v Cons.prems Cons.IH show ?thesis by simp
  next
    case True
    with v Cons.prems(1) obtain ok b1 rng1 where
      s: "fillBoard fuel (setCell board r c (Some num)) rng = Inr (ok, b1, rng1)"
      by (auto split: sum.splits)
    with v True Cons.prems(1) have nok: "\<not> ok"
      and rest: "fillNums fuel r c rest (setCell b1 r c (Some 0)) rng1 = Inr (False, b', rng')"
      by (auto split: if_splits)
    from IH s nok have "b1 = setCell board r c (Some num)" by simp
    then have "setCell b1 r c (Some 0) = board"
      using Cons.prems by (simp add: setCell_restore)
    with rest Cons.IH Cons.prems show ?thesis by simp
  qed
qed

lemma fill_restores:
  "fillBoard fuel board rng = Inr (False, b', rng') \<Longrightarrow> b' = board"
proof (induction fuel arbitrary: board rng b' rng')
  case 0
  then show ?case by simp
next
  case (Suc fuel)
  show ?case
  proof (cases "findEmptyCell board")
    case None
    with Suc.prems show ?thesis by simp
  next
    case (Some rc)
    obtain r c where rc: "rc = (r, c)" by (cases rc)
    from Suc.prems Some rc obtain nums rng1 where sc:
      "fillNums fuel r c nums board rng1 = Inr (False, b', rng')"
      by (auto split: prod.splits)
    note e = findEmptyCell_Some [OF Some [unfolded rc]]
    show ?thesis
      by (rule fillNums_restores [OF Suc.IH sc e(1) e(4) e(5)])
  qed
qed

subsection \<open>The recursion budget: one level per empty cell suffices\<close>

lemma emptyCount_le: "emptyCount board \<le> length board * length board"
proof -
  have "emptyCount board \<le> length (allCells (length board))"
    unfolding emptyCount_def by (rule length_filter_le)
  then show ?thesis by (simp add: allCells_def)
qed

lemma length_filter_less_mono:
  assumes "\<And>x. x \<in> set xs \<Longrightarrow> Q x \<Longrightarrow> P x" "y \<in> set xs" "P y" "\<not> Q y"
  shows "length (filter Q xs) < length (filter P xs)"
proof -
  have "filter Q xs = filter Q (filter P xs)"
    using assms(1) by (auto intro: filter_cong)
  moreover have "length (filter Q (filter P xs)) < length (filter P xs)"
    by (rule length_filter_less [of y]) (use assms in auto)
  ultimately show ?thesis by simp
qed

lemma emptyCount_setCell_less:
  assumes "r < length board" "c < length board" "c < length (board ! r)"
    "cellAt board r c = Some 0" "v \<noteq> Some 0"
  shows "emptyCount (setCell board r c v) < emptyCount board"
  unfolding emptyCount_def length_setCell
proof (rule length_filter_less_mono [of _ _ _ "(r, c)"])
  fix x assume "x \<in> set (allCells (length board))"
    and "case x of (i, j) \<Rightarrow> cellAt (setCell board r c v) i j = Some 0"
  then show "case x of (i, j) \<Rightarrow> cellAt board i j = Some 0"
    using assms by (auto simp: allCells_set cellAt_setCell split: if_splits)
next
  show "(r, c) \<in> set (allCells (length board))"
    using assms by (simp add: allCells_set)
  show "case (r, c) of (i, j) \<Rightarrow> cellAt board i j = Some 0"
    using assms by simp
  show "\<not> (case (r, c) of (i, j) \<Rightarrow> cellAt (setCell board r c v) i j = Some 0)"
    using assms by (simp add: cellAt_setCell)
qed

lemma rowHas_iff: "rowHas board row num \<longleftrightarrow> (\<exists>i<length board. cellAt board row i = Some num)"
  by (auto simp: rowHas_def list_ex_iff)

lemma colHas_iff: "colHas board col num \<longleftrightarrow> (\<exists>i<length board. cellAt board i col = Some num)"
  by (auto simp: colHas_def list_ex_iff)

lemma isValidPlacement_in_range:
  "row < length board \<Longrightarrow>
     isValidPlacement board row col num = Inr (\<not> rowHas board row num \<and> \<not> colHas board col num)"
  by (simp add: isValidPlacement_def)

lemma valid_nonzero:
  assumes "row < length board" "col < length board" "cellAt board row col = Some 0"
    "isValidPlacement board row col num = Inr True"
  shows "num \<noteq> 0"
  using assms by (auto simp: isValidPlacement_in_range rowHas_iff)

lemma findCandidates_in_range:
  "row < length board \<Longrightarrow>
     findCandidates board row col nums =
       Inr (filter (\<lambda>num. \<not> rowHas board row num \<and> \<not> colHas board col num) nums)"
  by (induction nums) (simp_all add: isValidPlacement_in_range)

lemma solveCandidates_total:
  assumes IH: "\<And>board used. emptyCount board < fuel \<Longrightarrow>
      \<exists>res. solveWithStrategies fuel board used = Inr res"
  shows "r < length board \<Longrightarrow> c < length board \<Longrightarrow> c < length (board ! r) \<Longrightarrow>
      cellAt board r c = Some 0 \<Longrightarrow> 0 \<notin> set cands \<Longrightarrow> emptyCount board \<le> fuel \<Longrightarrow>
      \<exists>res. solveCandidates fuel r c cands board used = Inr res"
proof (induction cands arbitrary: used)
  case Nil
  then show ?case by auto
next
  case (Cons num rest)
  have "emptyCount (setCell board r c (Some num)) < emptyCount board"
    using Cons.prems by (intro emptyCount_setCell_less) auto
  with Cons.prems have "emptyCount (setCell board r c (Some num)) < fuel" by simp
  from IH [OF this] obtain ok b1 u1 where
    s: "solveWithStrategies fuel (setCell board r c (Some num)) used = Inr (ok, b1, u1)"
    by (metis prod_cases3)
  show ?case
  proof (cases ok)
    case True
    with s show ?thesis by auto
  next
    case False
    with s have "b1 = setCell board r c (Some num)" by (simp add: solve_restores)
    then have "setCell b1 r c (Some 0) = board"
      using Cons.prems by (simp add: setCell_restore cellAt_def arrayGet_def)
    with s False Cons.IH [of u1] Cons.prems show ?thesis by simp
  qed
qed

lemma solve_total:
  "emptyCount board < fuel \<Longrightarrow> \<exists>res. solveWithStrategies fuel board used = Inr res"
proof (induction fuel arbitrary: board used)
  case 0
  then show ?case by simp
next
  case (Suc fuel)
  show ?case
  proof (cases "findEmptyCell board")
    case None
    then show ?thesis by auto
  next
    case (Some rc)
    obtain r c where rc: "rc = (r, c)" by (cases rc)
    note e = findEmptyCell_Some [OF Some [unfolded rc]]
    let ?cands = "filter (\<lambda>num. \<not> rowHas board r num \<and> \<not> colHas board c num)
      (numsUpTo (length board))"
    have "0 \<notin> set ?cands"
      using e by (auto simp: rowHas_iff)
    moreover have "emptyCount board \<le> fuel" using Suc.prems by simp
    ultimately have "\<exists>res. solveCandidates fuel r c ?cands board
        (trackStrategies (length ?cands) used) = Inr res"
      using e by (intro solveCandidates_total Suc.IH) auto
    then show ?thesis
      using Some rc e by (simp add: findCandidates_in_range)
  qed
qed

lemma fillNums_total:
  assumes IH: "\<And>board rng. emptyCount board < fuel \<Longrightarrow>
      \<exists>res. fillBoard fuel board rng = Inr res"
  shows "r < length board \<Longrightarrow> c < length board \<Longrightarrow> c < length (board ! r) \<Longrightarrow>
      cellAt board r c = Some 0 \<Longrightarrow> emptyCount board \<le> fuel \<Longrightarrow>
      \<exists>res. fillNums fuel r c nums board rng = Inr res"
proof (induction nums arbitrary: rng)
  case Nil
  then show ?case by auto
next
  case (Cons num rest)
  let ?valid = "\<not> rowHas board r num \<and> \<not> colHas board c num"
  have v: "isValidPlacement board r c num = Inr ?valid"
    using Cons.prems by (simp add: isValidPlacement_in_range)
  show ?case
  proof (cases ?valid)
    case False
    with v Cons.IH [of rng] Cons.prems show ?thesis by auto
  next
    case True
    with v Cons.prems have "num \<noteq> 0" by (auto dest: valid_nonzero)
    then have "emptyCount (setCell board r c (Some num)) < emptyCount board"
      using Cons.prems by (intro emptyCount_setCell_less) auto
    with Cons.prems have "emptyCount (setCell board r c (Some num)) < fuel" by simp
    from IH [OF this] obtain ok b1 rng1 where
      s: "fillBoard fuel (setCell board r c (Some num)) rng = Inr (ok, b1, rng1)"
      by (metis prod_cases3)
    show ?thesis
    proof (cases ok)
      case True
      with s v \<open>?valid\<close> show ?thesis by auto
    next
      case False
      with s have "b1 = setCell board r c (Some num)" by (simp add: fill_restores)
      then have "setCell b1 r c (Some 0) = board"
        using Cons.prems by (simp add: setCell_restore cellAt_def arrayGet_def)
      with s False v \<open>?valid\<close> Cons.IH [of rng1] Cons.prems show ?thesis by simp
    qed
  qed
qed

lemma fill_total:
  "emptyCount board < fuel \<Longrightarrow> \<exists>res. fillBoard fuel board rng = Inr res"
proof (induction fuel arbitrary: board rng)
  case 0
  then show ?case by simp
next
  case (Suc fuel)
  show ?case
  proof (cases "findEmptyCell board")
    case None
    then show ?thesis by auto
  next
    case (Some rc)
    obtain r c where rc: "rc = (r, c)" by (cases rc)
    note e = findEmptyCell_Some [OF Some [unfolded rc]]
    obtain nums rng1 where sh: "shuffleArray (numsUpTo (length board)) rng = (nums, rng1)"
      by (cases "shuffleArray (numsUpTo (length board)) rng")
    have "emptyCount board \<le> fuel" using Suc.prems by simp
    then have "\<exists>res. fillNums fuel r c nums board rng1 = Inr res"
      using e by (intro fillNums_total Suc.IH) auto
    then show ?thesis
      using Some rc sh by simp
  qed
qed

subsection \<open>Validity line by line; the tags of a search; the character tables\<close>

lemma scanLine_iff:
  "scanLine seen cs \<longleftrightarrow>
     distinct (filter (\<lambda>c. c \<noteq> Some 0) cs) \<and> set (filter (\<lambda>c. c \<noteq> Some 0) cs) \<inter> seen = {}"
  by (induction cs arbitrary: seen) auto

lemma isBoardValid_lines:
  "isBoardValid board \<longleftrightarrow>
     (\<forall>i<length board. distinct (filter (\<lambda>c. c \<noteq> Some 0) (rowCells board i))) \<and>
     (\<forall>j<length board. distinct (filter (\<lambda>c. c \<noteq> Some 0) (colCells board j)))"
  by (auto simp: isBoardValid_def list_ex_iff scanLine_iff)

lemma square_cellAt:
  "square n board \<Longrightarrow> i < n \<Longrightarrow> j < n \<Longrightarrow> cellAt board i j = board ! i ! j"
  by (auto simp: square_def cellAt_def arrayGet_def list_all_length)

lemma square_rowCells:
  assumes "square n board" "i < n"
  shows "rowCells board i = board ! i"
proof -
  have "length (board ! i) = n" "length board = n"
    using assms by (auto simp: square_def list_all_length)
  then show ?thesis
    using assms by (auto simp: rowCells_def square_cellAt intro!: nth_equalityI)
qed

lemma square_colCells:
  assumes "square n board" "j < n"
  shows "colCells board j = specColumn board j"
proof -
  have len: "length board = n" and rows: "\<forall>row\<in>set board. length row = n"
    using assms by (auto simp: square_def list_all_iff)
  have "filter (\<lambda>row. j < length row) board = board"
    using rows assms by (auto intro: filter_True)
  then have "specColumn board j = map (\<lambda>row. row ! j) board"
    by (simp add: specColumn_def)
  also have "\<dots> = map (\<lambda>i. board ! i ! j) [0..<n]"
    using len by (auto intro!: nth_equalityI)
  also have "\<dots> = colCells board j"
    using assms len by (auto simp: colCells_def square_cellAt)
  finally show ?thesis by simp
qed

lemma square_maxlen:
  assumes "square n board"
  shows "foldr max (map length board) 0 = (if board = [] then 0 else n)"
proof -
  have "\<forall>row\<in>set board. length row = n"
    using assms by (auto simp: square_def list_all_iff)
  then show ?thesis by (induction board) auto
qed

lemma isBoardValid_square_spec:
  assumes "square n board"
  shows "isBoardValid board = specNoDuplicates board"
proof -
  have len: "length board = n" using assms by (simp add: square_def)
  have "(\<forall>i<length board. distinct (filter (\<lambda>c. c \<noteq> Some 0) (rowCells board i))) \<longleftrightarrow>
        list_all (\<lambda>row. distinct (filter (\<lambda>c. c \<noteq> Some 0) row)) board"
    using assms len by (simp add: list_all_length square_rowCells)
  moreover have "(\<forall>j<length board. distinct (filter (\<lambda>c. c \<noteq> Some 0) (colCells board j))) \<longleftrightarrow>
        list_all (\<lambda>j. distinct (filter (\<lambda>c. c \<noteq> Some 0) (specColumn board j)))
          [0..<foldr max (map length board) 0]"
    using assms len by (auto simp: list_all_iff square_colCells square_maxlen)
  ultimately show ?thesis
    by (simp add: isBoardValid_lines specNoDuplicates_def)
qed

lemma tagsOf_Nil [simp]: "tagsOf [] = {}"
  by (simp add: tagsOf_def)





lemma getHebrewChar_no_entry:
  assumes "\<forall>c \<in> set (sourceOf variant). val c \<noteq> v"
  shows "getHebrewChar v variant = \<lparr>char = [], color = ''#000000'', val = 0\<rparr>"
proof -
  have "find (\<lambda>c. val c = v) (sourceOf variant) = None"
    using assms by (simp add: find_None_iff)
  then show ?thesis by (simp add: getHebrewChar_def)
qed

lemma sourceOf_vals: "val ` set (sourceOf variant) = {1..9}"
proof -
  have "{1..9::int} = {1,2,3,4,5,6,7,8,9}" by auto
  then show ?thesis
    by (simp add: sourceOf_def FULL_CHINESE_CHARS_def FULL_HEBREW_CHARS_def COLOR_CHARS_def mk_def)
qed

subsection \<open>Shuffling, clearing and restoring cells\<close>

lemma randomIndex_less: "0 < m \<Longrightarrow> fst (randomIndex m rng) < m"
  by (simp add: randomIndex_def split: list.splits)

lemma shuffleFrom_set:
  "k < length xs \<Longrightarrow> set (fst (shuffleFrom k xs rng)) = set xs \<and>
     length (fst (shuffleFrom k xs rng)) = length xs"
proof (induction k arbitrary: xs rng)
  case 0
  then show ?case by simp
next
  case (Suc k)
  obtain j rng' where r: "randomIndex (Suc k + 1) rng = (j, rng')"
    by (cases "randomIndex (Suc k + 1) rng")
  have "j < Suc k + 1"
    using randomIndex_less [of "Suc k + 1" rng] r by simp
  with Suc.prems have j: "j < length xs" by simp
  let ?ys = "xs[Suc k := xs ! j, j := xs ! Suc k]"
  have "set ?ys = set xs" "length ?ys = length xs"
    using Suc.prems j by (simp_all add: set_swap)
  moreover have "k < length ?ys" using Suc.prems by simp
  ultimately show ?case
    using Suc.IH [of ?ys rng'] r by simp
qed

lemma shuffleArray_set: "set (fst (shuffleArray xs rng)) = set xs"
proof (cases xs)
  case Nil
  then show ?thesis by (simp add: shuffleArray_def)
next
  case (Cons a list)
  then show ?thesis
    using shuffleFrom_set [of "length xs - 1" xs rng] by (simp add: shuffleArray_def)
qed

lemma arrayGet_arraySet:
  "arrayGet (arraySet xs c v) j = (if j = c then v else arrayGet xs j)"
  by (auto simp: arrayGet_def arraySet_def nth_append)

lemma cellAt_setCell_any:
  assumes "r < length board" "i < length board"
  shows "cellAt (setCell board r c v) i j = (if i = r \<and> j = c then v else cellAt board i j)"
  using assms by (auto simp: cellAt_def setCell_def arrayGet_arraySet nth_list_update)

lemma cellAt_restore:
  assumes "r < length board" "i < length board"
  shows "cellAt (setCell (setCell board r c v) r c (cellAt board r c)) i j = cellAt board i j"
  using assms by (auto simp: cellAt_setCell_any)

lemma rowCells_cong:
  "length p = length q \<Longrightarrow> (\<And>j. j < length q \<Longrightarrow> cellAt p i j = cellAt q i j) \<Longrightarrow>
     rowCells p i = rowCells q i"
  by (simp add: rowCells_def)

lemma colCells_cong:
  "length p = length q \<Longrightarrow> (\<And>i. i < length q \<Longrightarrow> cellAt p i j = cellAt q i j) \<Longrightarrow>
     colCells p j = colCells q j"
  by (simp add: colCells_def)

lemma isBoardValid_cong:
  assumes "length p = length q"
    "\<And>i j. i < length q \<Longrightarrow> j < length q \<Longrightarrow> cellAt p i j = cellAt q i j"
  shows "isBoardValid p = isBoardValid q"
proof -
  have "rowCells p i = rowCells q i" if "i < length q" for i
    using assms that by (intro rowCells_cong) auto
  moreover have "colCells p j = colCells q j" if "j < length q" for j
    using assms that by (intro colCells_cong) auto
  ultimately show ?thesis
    using assms(1) by (simp add: isBoardValid_lines)
qed

lemma emptyCount_cong:
  assumes "length p = length q"
    "\<And>i j. i < length q \<Longrightarrow> j < length q \<Longrightarrow> cellAt p i j = cellAt q i j"
  shows "emptyCount p = emptyCount q"
proof -
  have "filter (\<lambda>(i, j). cellAt p i j = Some 0) (allCells (length q)) =
        filter (\<lambda>(i, j). cellAt q i j = Some 0) (allCells (length q))"
    using assms(2) by (intro filter_cong) (auto simp: allCells_set)
  then show ?thesis using assms(1) by (simp add: emptyCount_def)
qed

lemma clear_subset:
  "set (filter (\<lambda>c. c \<noteq> Some 0) (map (\<lambda>j. if j = k then Some 0 else f j) xs))
     \<subseteq> set (filter (\<lambda>c. c \<noteq> Some 0) (map f xs))"
  by (induction xs) auto

lemma distinct_clear:
  "distinct (filter (\<lambda>c. c \<noteq> Some 0) (map f xs)) \<Longrightarrow>
   distinct (filter (\<lambda>c. c \<noteq> Some 0) (map (\<lambda>j. if j = k then Some 0 else f j) xs))"
proof (induction xs)
  case Nil
  then show ?case by simp
next
  case (Cons x xs)
  then show ?case
    using clear_subset [of k f xs] by (auto split: if_splits)
qed

lemma isBoardValid_clear:
  assumes "isBoardValid board" "r < length board"
  shows "isBoardValid (setCell board r c (Some 0))"
proof -
  let ?b = "setCell board r c (Some 0)"
  have rows: "rowCells ?b i = map (\<lambda>j. if j = c \<and> i = r then Some 0 else cellAt board i j) [0..<length board]"
    if "i < length board" for i
    using assms that by (auto simp: rowCells_def cellAt_setCell_any)
  have cols: "colCells ?b j = map (\<lambda>i. if i = r \<and> j = c then Some 0 else cellAt board i j) [0..<length board]"
    if "j < length board" for j
    using assms that by (auto simp: colCells_def cellAt_setCell_any)
  have "distinct (filter (\<lambda>c. c \<noteq> Some 0) (rowCells ?b i))" if "i < length board" for i
  proof (cases "i = r")
    case True
    have "distinct (filter (\<lambda>c. c \<noteq> Some 0) (map (\<lambda>j. cellAt board i j) [0..<length board]))"
      using assms that by (simp add: isBoardValid_lines rowCells_def)
    from distinct_clear [OF this, of c] show ?thesis
      using rows [OF that] True by simp
  next
    case False
    then have "rowCells ?b i = rowCells board i"
      using assms that by (intro rowCells_cong) (auto simp: cellAt_setCell_any)
    then show ?thesis
      using assms that by (simp add: isBoardValid_lines)
  qed
  moreover have "distinct (filter (\<lambda>c. c \<noteq> Some 0) (colCells ?b j))" if "j < length board" for j
  proof (cases "j = c")
    case True
    have "distinct (filter (\<lambda>c. c \<noteq> Some 0) (map (\<lambda>i. cellAt board i j) [0..<length board]))"
      using assms that by (simp add: isBoardValid_lines colCells_def)
    from distinct_clear [OF this, of r] show ?thesis
      using cols [OF that] True by simp
  next
    case False
    then have "colCells ?b j = colCells board j"
      using assms that by (intro colCells_cong) (auto simp: cellAt_setCell_any)
    then show ?thesis
      using assms that by (simp add: isBoardValid_lines)
  qed
  ultimately show ?thesis by (simp add: isBoardValid_lines)
qed

lemma distinct_allCells: "distinct (allCells n)"
  by (simp add: allCells_def distinct_product)

lemma emptyCount_card:
  "emptyCount board = card {(i, j). i < length board \<and> j < length board \<and> cellAt board i j = Some 0}"
proof -
  have "{x. case x of (i, j) \<Rightarrow> cellAt board i j = Some 0} \<inter> set (allCells (length board)) =
        {(i, j). i < length board \<and> j < length board \<and> cellAt board i j = Some 0}"
    by (auto simp: allCells_set)
  then show ?thesis
    by (simp add: emptyCount_def distinct_length_filter distinct_allCells)
qed

lemma emptyCount_clear:
  assumes "r < length board"
  shows "emptyCount (setCell board r c (Some 0)) \<le> emptyCount board + 1"
proof -
  let ?A = "{(i, j). i < length board \<and> j < length board \<and> cellAt board i j = Some 0}"
  let ?B = "{(i, j). i < length board \<and> j < length board \<and>
      cellAt (setCell board r c (Some 0)) i j = Some 0}"
  have fin: "finite ?A"
    by (rule finite_subset [of _ "{..<length board} \<times> {..<length board}"]) auto
  have "?B \<subseteq> insert (r, c) ?A"
    using assms by (auto simp: cellAt_setCell_any split: if_splits)
  then have "card ?B \<le> card (insert (r, c) ?A)"
    using fin by (intro card_mono) auto
  also have "\<dots> \<le> card ?A + 1"
    using fin by (simp add: card_insert_if)
  finally show ?thesis by (simp add: emptyCount_card)
qed

subsection \<open>The removal loop keeps the puzzle a cleared copy of the board\<close>

lemma square_zeroCells:
  assumes "square n board"
  shows "emptyCount board = zeroCells board"
proof -
  have len: "length board = n" and rows: "\<And>i. i < n \<Longrightarrow> length (board ! i) = n"
    using assms by (auto simp: square_def list_all_length)
  have "board = map (\<lambda>i. map (\<lambda>j. cellAt board i j) [0..<n]) [0..<n]"
    using len rows assms by (auto simp: square_cellAt intro!: nth_equalityI)
  then have "concat board = concat (map (\<lambda>i. map (\<lambda>j. cellAt board i j) [0..<n]) [0..<n])"
    by simp
  also have "\<dots> = map (\<lambda>(i, j). cellAt board i j) (allCells n)"
    by (simp add: allCells_def product_concat_map map_concat comp_def)
  finally have "concat board = map (\<lambda>(i, j). cellAt board i j) (allCells n)" .
  then have "zeroCells board =
      length (filter (\<lambda>c. c = Some 0) (map (\<lambda>(i, j). cellAt board i j) (allCells n)))"
    by (simp add: zeroCells_def)
  also have "\<dots> = emptyCount board"
    using len by (simp add: emptyCount_def filter_map comp_def case_prod_unfold)
  finally show ?thesis by simp
qed

lemma removeLoop_inv:
  assumes fuel: "n * n < fuel"
    and keep: "\<And>p k r c. Inv p k \<Longrightarrow> length p = n \<Longrightarrow> k < target \<Longrightarrow> r < n \<Longrightarrow> c < n \<Longrightarrow>
        Inv (setCell p r c (Some 0)) (k + 1)"
    and restore: "\<And>p k r c. Inv p k \<Longrightarrow> length p = n \<Longrightarrow> r < n \<Longrightarrow> c < n \<Longrightarrow>
        Inv (setCell (setCell p r c (Some 0)) r c (cellAt p r c)) k"
  shows "length puzzle = n \<Longrightarrow> Inv puzzle removed \<Longrightarrow> \<forall>(r, c) \<in> set cells. r < n \<and> c < n \<Longrightarrow>
     \<exists>out k. removeLoop fuel target maxAttempts cells puzzle removed attempts = Inr out \<and>
       Inv out k \<and> length out = n"
proof (induction cells arbitrary: puzzle removed attempts rule: rev_induct)
  case Nil
  then show ?case
    by (subst removeLoop.simps) auto
next
  case (snoc x xs)
  obtain r c where x: "x = (r, c)" by (cases x)
  have r: "r < n" "c < n" using snoc.prems x by auto
  have xs: "\<forall>(r, c) \<in> set xs. r < n \<and> c < n" using snoc.prems by auto
  let ?p1 = "setCell puzzle r c (Some 0)"
  show ?case
  proof (cases "removed < target \<and> attempts < maxAttempts")
    case False
    then show ?thesis
      using snoc.prems by (subst removeLoop.simps) auto
  next
    case True
    have "emptyCount ?p1 \<le> length ?p1 * length ?p1" by (rule emptyCount_le)
    then have "emptyCount ?p1 < fuel" using fuel snoc.prems by simp
    then obtain res where "solveWithStrategies fuel ?p1 {} = Inr res"
      using solve_total by blast
    then obtain ok solved used where
      s: "solveWithStrategies fuel ?p1 {} = Inr (ok, solved, used)"
      by (cases res) auto
    show ?thesis
    proof (cases ok)
      case True
      have "Inv ?p1 (removed + 1)"
        using keep snoc.prems r \<open>removed < target \<and> attempts < maxAttempts\<close> by blast
      moreover have "length ?p1 = n" using snoc.prems by simp
      ultimately have "\<exists>out k. removeLoop fuel target maxAttempts xs ?p1 (removed + 1)
          (attempts + 1) = Inr out \<and> Inv out k \<and> length out = n"
        using snoc.IH xs by blast
      then show ?thesis
        using s True \<open>removed < target \<and> attempts < maxAttempts\<close> x
        by (subst removeLoop.simps) simp
    next
      case False
      let ?p2 = "setCell ?p1 r c (cellAt puzzle r c)"
      have "Inv ?p2 removed"
        using restore snoc.prems r by blast
      moreover have "length ?p2 = n" using snoc.prems by simp
      ultimately have "\<exists>out k. removeLoop fuel target maxAttempts xs ?p2 removed
          (attempts + 1) = Inr out \<and> Inv out k \<and> length out = n"
        using snoc.IH xs by blast
      then show ?thesis
        using s False \<open>removed < target \<and> attempts < maxAttempts\<close> x
        by (subst removeLoop.simps) simp
    qed
  qed
qed

lemma square_setCell:
  assumes "square n board" "r < n" "c < n"
  shows "square n (setCell board r c v)"
proof -
  have "length (board ! r) = n" "length board = n"
    using assms by (auto simp: square_def list_all_length)
  then show ?thesis
    using assms
    by (auto simp: square_def list_all_length setCell_def arraySet_def nth_list_update)
qed

lemma agreesOffZero_refl: "agreesOffZero board board"
  by (simp add: agreesOffZero_def)

lemma agreesOffZero_clear:
  "agreesOffZero p board \<Longrightarrow> r < length board \<Longrightarrow> agreesOffZero (setCell p r c (Some 0)) board"
  by (auto simp: agreesOffZero_def cellAt_setCell_any)

lemma agreesOffZero_restore:
  "agreesOffZero p board \<Longrightarrow> r < length board \<Longrightarrow>
     agreesOffZero (setCell (setCell p r c (Some 0)) r c (cellAt p r c)) board"
  by (auto simp: agreesOffZero_def cellAt_restore)

lemma removeNumbers_inv:
  assumes "length board * length board < fuel"
  shows "\<exists>puzzle rng'. removeNumbers fuel board difficulty rng = Inr (puzzle, rng') \<and>
     agreesOffZero puzzle board \<and>
     (isBoardValid board \<longrightarrow> isBoardValid puzzle) \<and>
     (square (length board) board \<longrightarrow> square (length board) puzzle) \<and>
     emptyCount puzzle \<le> emptyCount board +
       targetEmptyCells (length board * length board) difficulty"
proof -
  let ?n = "length board"
  let ?target = "targetEmptyCells (?n * ?n) difficulty"
  define Inv where "Inv p k \<longleftrightarrow> agreesOffZero p board \<and>
     (isBoardValid board \<longrightarrow> isBoardValid p) \<and>
     (square ?n board \<longrightarrow> square ?n p) \<and> emptyCount p \<le> emptyCount board + k \<and>
     k \<le> ?target" for p k
  obtain cells rng' where sh: "shuffleArray (allCells ?n) rng = (cells, rng')"
    by (cases "shuffleArray (allCells ?n) rng")
  have "set cells = set (allCells ?n)"
    using shuffleArray_set [of "allCells ?n" rng] sh by simp
  then have cells: "\<forall>(r, c) \<in> set cells. r < ?n \<and> c < ?n"
    by (auto simp: allCells_set)
  have keep: "Inv (setCell p r c (Some 0)) (k + 1)"
    if "Inv p k" "length p = ?n" "k < ?target" "r < ?n" "c < ?n" for p k r c
    using that emptyCount_clear [of r p c]
    by (auto simp: Inv_def agreesOffZero_clear isBoardValid_clear square_setCell)
  have restore: "Inv (setCell (setCell p r c (Some 0)) r c (cellAt p r c)) k"
    if "Inv p k" "length p = ?n" "r < ?n" "c < ?n" for p k r c
  proof -
    let ?q = "setCell (setCell p r c (Some 0)) r c (cellAt p r c)"
    have len: "length ?q = length p" by simp
    have cell: "cellAt ?q i j = cellAt p i j" if "i < length p" for i j
      using that \<open>r < ?n\<close> \<open>length p = ?n\<close> by (simp add: cellAt_restore)
    have "isBoardValid ?q = isBoardValid p"
      by (rule isBoardValid_cong [OF len]) (simp add: cell)
    moreover have "emptyCount ?q = emptyCount p"
      by (rule emptyCount_cong [OF len]) (simp add: cell)
    ultimately show ?thesis
      using that by (simp add: Inv_def agreesOffZero_restore square_setCell)
  qed
  have "Inv board 0"
    by (simp add: Inv_def agreesOffZero_refl)
  with removeLoop_inv [where Inv = Inv and n = ?n and fuel = fuel and target = ?target
      and puzzle = board and removed = 0 and cells = cells and maxAttempts = "?n * ?n * 2"
      and attempts = 0, OF assms keep restore] cells
  obtain out k where "removeLoop fuel ?target (?n * ?n * 2) cells board 0 0 = Inr out" "Inv out k"
    by blast
  then show ?thesis
    using sh by (auto simp: removeNumbers_def Inv_def)
qed


lemma full_emptyCount:
  assumes "square n board" "list_all (\<lambda>row. Some 0 \<notin> set row) board"
  shows "emptyCount board = 0"
proof -
  have "filter (\<lambda>c. c = Some 0) (concat board) = []"
    using assms(2) by (auto simp: filter_empty_conv list_all_iff)
  then show ?thesis
    using square_zeroCells [OF assms(1)] by (simp add: zeroCells_def)
qed

subsection \<open>The strategic loop: three solves of one copy decide like one\<close>








subsection \<open>Placements that keep a board valid; the rotated board\<close>

lemma place_subset:
  "set (filter P (map (\<lambda>j. if j = k then v else f j) xs)) \<subseteq> insert v (set (filter P (map f xs)))"
  by (induction xs) auto

lemma distinct_place:
  "distinct (filter P (map f xs)) \<Longrightarrow> distinct xs \<Longrightarrow> v \<notin> f ` set xs \<Longrightarrow>
   distinct (filter P (map (\<lambda>j. if j = k then v else f j) xs))"
proof (induction xs)
  case Nil
  then show ?case by simp
next
  case (Cons x xs)
  have sub: "set (filter P (map (\<lambda>j. if j = k then v else f j) xs))
      \<subseteq> insert v (set (filter P (map f xs)))"
    by (rule place_subset)
  have ih: "distinct (filter P (map (\<lambda>j. if j = k then v else f j) xs))"
    using Cons by (auto split: if_splits)
  show ?case
  proof (cases "x = k")
    case True
    then have "k \<notin> set xs" using Cons.prems by simp
    then have m: "map (\<lambda>j. if j = k then v else f j) xs = map f xs"
      by (auto intro: map_cong)
    have eq: "filter P (map (\<lambda>j. if j = k then v else f j) (x # xs)) =
        filter P (v # map f xs)"
      unfolding list.map m using True by simp
    have "distinct (filter P (map f xs))" "v \<notin> set (map f xs)"
      using Cons.prems by (auto split: if_splits)
    then show ?thesis
      unfolding eq by auto
  next
    case False
    then show ?thesis
      using Cons.prems ih sub by (auto split: if_splits)
  qed
qed

lemma isBoardValid_place:
  assumes "isBoardValid board" "r < length board"
    "\<not> rowHas board r num" "\<not> colHas board c num"
  shows "isBoardValid (setCell board r c (Some num))"
proof -
  let ?n = "length board"
  let ?b = "setCell board r c (Some num)"
  have rowfree: "Some num \<notin> (\<lambda>j. cellAt board r j) ` set [0..<?n]"
    using assms(3) by (auto simp: rowHas_iff)
  have colfree: "Some num \<notin> (\<lambda>i. cellAt board i c) ` set [0..<?n]"
    using assms(4) by (auto simp: colHas_iff)
  have "distinct (filter (\<lambda>c. c \<noteq> Some 0) (rowCells ?b i))" if "i < ?n" for i
  proof (cases "i = r")
    case True
    have "rowCells ?b i = map (\<lambda>j. if j = c then Some num else cellAt board r j) [0..<?n]"
      using assms(2) True by (auto simp: rowCells_def cellAt_setCell_any)
    moreover have "distinct (filter (\<lambda>c. c \<noteq> Some 0) (map (\<lambda>j. cellAt board r j) [0..<?n]))"
      using assms(1,2) by (simp add: isBoardValid_lines rowCells_def)
    ultimately show ?thesis
      using distinct_place [OF _ _ rowfree, of "\<lambda>c. c \<noteq> Some 0" c] by simp
  next
    case False
    then have "rowCells ?b i = rowCells board i"
      using assms that by (intro rowCells_cong) (auto simp: cellAt_setCell_any)
    then show ?thesis
      using assms that by (simp add: isBoardValid_lines)
  qed
  moreover have "distinct (filter (\<lambda>c. c \<noteq> Some 0) (colCells ?b j))" if "j < ?n" for j
  proof (cases "j = c")
    case True
    have "colCells ?b j = map (\<lambda>i. if i = r then Some num else cellAt board i c) [0..<?n]"
      using assms(2) True by (auto simp: colCells_def cellAt_setCell_any)
    moreover have "distinct (filter (\<lambda>c. c \<noteq> Some 0) (map (\<lambda>i. cellAt board i c) [0..<?n]))"
      using assms(1) that True by (simp add: isBoardValid_lines colCells_def)
    ultimately show ?thesis
      using distinct_place [OF _ _ colfree, of "\<lambda>c. c \<noteq> Some 0" r] by simp
  next
    case False
    then have "colCells ?b j = colCells board j"
      using assms that by (intro colCells_cong) (auto simp: cellAt_setCell_any)
    then show ?thesis
      using assms that by (simp add: isBoardValid_lines)
  qed
  ultimately show ?thesis by (simp add: isBoardValid_lines)
qed

lemma distinct_filter_nth_neq:
  assumes "distinct (filter P xs)" "j < length xs" "k < length xs" "j \<noteq> k" "P (xs ! j)"
  shows "xs ! j \<noteq> xs ! k"
proof
  assume eq: "xs ! j = xs ! k"
  have "\<not> distinct (filter P xs)" if "j' < k'" "k' < length xs" "xs ! j' = xs ! k'" "P (xs ! j')"
    for j' k'
  proof -
    have "xs = take k' xs @ xs ! k' # drop (Suc k') xs"
      using that by (simp add: id_take_nth_drop)
    moreover have "xs ! j' \<in> set (take k' xs)"
      using that by (auto simp: in_set_conv_nth)
    ultimately have "xs ! k' \<in> set (filter P (take k' xs))" "filter P xs =
        filter P (take k' xs) @ xs ! k' # filter P (drop (Suc k') xs)"
      using that by (auto, metis filter.simps(2) filter_append)
    then show ?thesis by auto
  qed
  from this [of j k] this [of k j] assms eq show False
    by (cases "j < k") auto
qed

lemma numsUpTo_set: "set (numsUpTo n) = {1..int n}"
proof -
  have "(\<lambda>i. int i + 1) ` {0..<n} = {1..int n}"
  proof (intro set_eqI iffI)
    fix x assume "x \<in> {1..int n}"
    then have "x = int (nat (x - 1)) + 1" "nat (x - 1) \<in> {0..<n}" by auto
    then show "x \<in> (\<lambda>i. int i + 1) ` {0..<n}" by blast
  qed auto
  then show ?thesis by (simp add: numsUpTo_def)
qed

lemma square_createEmptyBoard: "square n (createEmptyBoard n)"
  by (simp add: square_def createEmptyBoard_def list_all_length)

lemma cellAt_createEmptyBoard:
  "i < n \<Longrightarrow> cellAt (createEmptyBoard n) i j = (if j < n then Some 0 else None)"
  by (simp add: cellAt_def createEmptyBoard_def arrayGet_def)

lemma isBoardValid_createEmptyBoard: "isBoardValid (createEmptyBoard n)"
proof -
  have len: "length (createEmptyBoard n) = n" by (simp add: createEmptyBoard_def)
  have "filter (\<lambda>c. c \<noteq> Some 0) (rowCells (createEmptyBoard n) i) = []" if "i < n" for i
    using that by (auto simp: rowCells_def len cellAt_createEmptyBoard filter_empty_conv)
  moreover have "filter (\<lambda>c. c \<noteq> Some 0) (colCells (createEmptyBoard n) j) = []" if "j < n" for j
    using that by (auto simp: colCells_def len cellAt_createEmptyBoard filter_empty_conv)
  ultimately show ?thesis by (simp add: isBoardValid_lines len)
qed

lemma square_cyclicBoard: "square n (cyclicBoard n)"
  by (simp add: square_def cyclicBoard_def list_all_length)

lemma cellAt_cyclicBoard:
  "i < n \<Longrightarrow> j < n \<Longrightarrow> cellAt (cyclicBoard n) i j = Some (int ((i + j) mod n) + 1)"
  by (simp add: cellAt_def cyclicBoard_def arrayGet_def)

lemma cyclic_inj_le:
  assumes "j \<le> k" "k < n" "(i + j) mod n = (i + k) mod (n::nat)"
  shows "j = k"
proof -
  have "n dvd (i + k) - (i + j)"
    using assms mod_eq_dvd_iff_nat [of "i + j" "i + k" n] by simp
  then have "n dvd k - j" by simp
  moreover have "k - j < n" using assms by simp
  ultimately have "k - j = 0"
    by (meson dvd_imp_le not_less zero_less_iff_neq_zero)
  with assms show ?thesis by simp
qed

lemma cyclic_inj:
  assumes "j < n" "k < n" "(i + j) mod n = (i + k) mod (n::nat)"
  shows "j = k"
proof (cases "j \<le> k")
  case True
  then show ?thesis using assms cyclic_inj_le by blast
next
  case False
  then have "k \<le> j" by simp
  then show ?thesis using assms cyclic_inj_le [of k j n i] by simp
qed

lemma cyclic_inj':
  assumes "j < n" "k < n" "(j + i) mod n = (k + i) mod (n::nat)"
  shows "j = k"
  using assms cyclic_inj [of j n k i] by (simp add: add.commute)

lemma isBoardValid_cyclicBoard: "isBoardValid (cyclicBoard n)"
proof -
  have len: "length (cyclicBoard n) = n" by (simp add: cyclicBoard_def)
  have "distinct (rowCells (cyclicBoard n) i)" if "i < n" for i
  proof -
    have "rowCells (cyclicBoard n) i = map (\<lambda>j. Some (int ((i + j) mod n) + 1)) [0..<n]"
      using that by (simp add: rowCells_def len cellAt_cyclicBoard)
    moreover have "inj_on (\<lambda>j. Some (int ((i + j) mod n) + 1)) (set [0..<n])"
      by (auto simp: inj_on_def dest: cyclic_inj)
    ultimately show ?thesis by (simp add: distinct_map)
  qed
  moreover have "distinct (colCells (cyclicBoard n) j)" if "j < n" for j
  proof -
    have "colCells (cyclicBoard n) j = map (\<lambda>i. Some (int ((i + j) mod n) + 1)) [0..<n]"
      using that by (simp add: colCells_def len cellAt_cyclicBoard)
    moreover have "inj_on (\<lambda>i. Some (int ((i + j) mod n) + 1)) (set [0..<n])"
      by (auto simp: inj_on_def dest: cyclic_inj')
    ultimately show ?thesis by (simp add: distinct_map)
  qed
  ultimately show ?thesis
    by (simp add: isBoardValid_lines len distinct_filter)
qed

subsection \<open>The filler is sound and exhaustive\<close>

text \<open>What the filler maintains: \<open>n\<close> rows of \<open>n\<close> cells from 0 to \<open>n\<close>, no duplicates.\<close>

lemma cellsUpTo_place:
  assumes "\<forall>i<n. \<forall>j<n. \<exists>v. cellAt board i j = Some v \<and> 0 \<le> v \<and> v \<le> int n"
    "length board = n" "r < n" "0 \<le> num" "num \<le> int n"
  shows "\<forall>i<n. \<forall>j<n. \<exists>v. cellAt (setCell board r c (Some num)) i j = Some v \<and> 0 \<le> v \<and> v \<le> int n"
  using assms by (auto simp: cellAt_setCell_any)

lemma fillNums_sound:
  assumes IH: "\<And>board rng b' rng'. fillBoard fuel board rng = Inr (True, b', rng') \<Longrightarrow>
      square n board \<Longrightarrow> isBoardValid board \<Longrightarrow>
      \<forall>i<n. \<forall>j<n. \<exists>v. cellAt board i j = Some v \<and> 0 \<le> v \<and> v \<le> int n \<Longrightarrow>
      square n b' \<and> isBoardValid b' \<and> findEmptyCell b' = None \<and>
      (\<forall>i<n. \<forall>j<n. \<exists>v. cellAt b' i j = Some v \<and> 0 \<le> v \<and> v \<le> int n)"
  shows "fillNums fuel r c nums board rng = Inr (True, b', rng') \<Longrightarrow>
      square n board \<Longrightarrow> isBoardValid board \<Longrightarrow>
      \<forall>i<n. \<forall>j<n. \<exists>v. cellAt board i j = Some v \<and> 0 \<le> v \<and> v \<le> int n \<Longrightarrow>
      r < n \<Longrightarrow> c < n \<Longrightarrow> cellAt board r c = Some 0 \<Longrightarrow> set nums \<subseteq> {1..int n} \<Longrightarrow>
      square n b' \<and> isBoardValid b' \<and> findEmptyCell b' = None \<and>
      (\<forall>i<n. \<forall>j<n. \<exists>v. cellAt b' i j = Some v \<and> 0 \<le> v \<and> v \<le> int n)"
proof (induction nums arbitrary: rng)
  case Nil
  then show ?case by simp
next
  case (Cons num rest)
  have len: "length board = n" "length (board ! r) = n"
    using Cons.prems by (auto simp: square_def list_all_length)
  let ?valid = "\<not> rowHas board r num \<and> \<not> colHas board c num"
  have v: "isValidPlacement board r c num = Inr ?valid"
    using Cons.prems len by (simp add: isValidPlacement_in_range)
  have rest: "set rest \<subseteq> {1..int n}" and num: "1 \<le> num" "num \<le> int n"
    using Cons.prems by auto
  show ?case
  proof (cases ?valid)
    case False
    with v Cons.prems(1) have "fillNums fuel r c rest board rng = Inr (True, b', rng')"
      by simp
    from Cons.IH [OF this Cons.prems(2-7) rest] show ?thesis .
  next
    case True
    let ?b1 = "setCell board r c (Some num)"
    from True v Cons.prems(1) obtain ok b1 rng1 where
      s: "fillBoard fuel ?b1 rng = Inr (ok, b1, rng1)"
      by (auto split: sum.splits)
    have sq1: "square n ?b1"
      using Cons.prems by (simp add: square_setCell)
    have val1: "isBoardValid ?b1"
      using Cons.prems True len by (intro isBoardValid_place) auto
    have cells1: "\<forall>i<n. \<forall>j<n. \<exists>v. cellAt ?b1 i j = Some v \<and> 0 \<le> v \<and> v \<le> int n"
      using Cons.prems(4) len Cons.prems(5) num by (intro cellsUpTo_place) auto
    show ?thesis
    proof (cases ok)
      case ok: True
      with s v True Cons.prems(1) have "b1 = b'" "rng1 = rng'" by simp_all
      with s ok have s': "fillBoard fuel ?b1 rng = Inr (True, b', rng')" by simp
      from IH [OF s' sq1 val1 cells1] show ?thesis .
    next
      case nok: False
      with s have "b1 = ?b1" by (simp add: fill_restores)
      then have restored: "setCell b1 r c (Some 0) = board"
        using Cons.prems len by (simp add: setCell_restore cellAt_def arrayGet_def)
      from s v True nok Cons.prems(1) restored have
        "fillNums fuel r c rest board rng1 = Inr (True, b', rng')"
        by simp
      from Cons.IH [OF this Cons.prems(2-7) rest] show ?thesis .
    qed
  qed
qed

lemma fill_sound:
  "fillBoard fuel board rng = Inr (True, b', rng') \<Longrightarrow>
      square n board \<Longrightarrow> isBoardValid board \<Longrightarrow>
      \<forall>i<n. \<forall>j<n. \<exists>v. cellAt board i j = Some v \<and> 0 \<le> v \<and> v \<le> int n \<Longrightarrow>
      square n b' \<and> isBoardValid b' \<and> findEmptyCell b' = None \<and>
      (\<forall>i<n. \<forall>j<n. \<exists>v. cellAt b' i j = Some v \<and> 0 \<le> v \<and> v \<le> int n)"
proof (induction fuel arbitrary: board rng b' rng')
  case 0
  then show ?case by simp
next
  case (Suc fuel)
  have len: "length board = n" using Suc.prems by (simp add: square_def)
  show ?case
  proof (cases "findEmptyCell board")
    case None
    with Suc.prems show ?thesis by simp
  next
    case (Some rc)
    obtain r c where rc: "rc = (r, c)" by (cases rc)
    note e = findEmptyCell_Some [OF Some [unfolded rc]]
    obtain nums rng1 where sh: "shuffleArray (numsUpTo n) rng = (nums, rng1)"
      by (cases "shuffleArray (numsUpTo n) rng")
    have "set nums = {1..int n}"
      using shuffleArray_set [of "numsUpTo n" rng] sh by (simp add: numsUpTo_set)
    then have nums: "set nums \<subseteq> {1..int n}" by simp
    from Suc.prems(1) Some rc sh len have
      f: "fillNums fuel r c nums board rng1 = Inr (True, b', rng')"
      by simp
    show ?thesis
      by (rule fillNums_sound [OF Suc.IH f Suc.prems(2-4) _ _ e(3) nums])
        (use e len in auto)
  qed
qed

text \<open>The search is exhaustive: it succeeds whenever a full valid board extends the board.\<close>

lemma solution_value_valid:
  assumes "square n full" "isBoardValid full" "agreesOffZero board full"
    "r < n" "c < n" "cellAt board r c = Some 0" "cellAt full r c = Some v" "v \<noteq> 0"
  shows "\<not> rowHas board r v \<and> \<not> colHas board c v"
proof -
  have len: "length full = n" "length board = n"
    using assms by (auto simp: square_def agreesOffZero_def)
  have ag: "cellAt board i j = Some 0 \<or> cellAt board i j = cellAt full i j" if "i < n" for i j
    using assms(3) that len by (auto simp: agreesOffZero_def)
  have rows: "distinct (filter (\<lambda>c. c \<noteq> Some 0) (rowCells full r))"
    and cols: "distinct (filter (\<lambda>c. c \<noteq> Some 0) (colCells full c))"
    using assms len by (auto simp: isBoardValid_lines)
  have "cellAt board r j \<noteq> Some v" if "j < n" for j
  proof (cases "j = c")
    case True
    then show ?thesis using assms by simp
  next
    case False
    have "rowCells full r ! c \<noteq> rowCells full r ! j"
      using rows assms False that len
      by (intro distinct_filter_nth_neq [where P = "\<lambda>c. c \<noteq> Some 0"])
        (auto simp: rowCells_def)
    then have "cellAt full r j \<noteq> Some v"
      using assms that len by (simp add: rowCells_def)
    then show ?thesis using ag [OF assms(4), of j] assms(8) by auto
  qed
  moreover have "cellAt board i c \<noteq> Some v" if "i < n" for i
  proof (cases "i = r")
    case True
    then show ?thesis using assms by simp
  next
    case False
    have "colCells full c ! r \<noteq> colCells full c ! i"
      using cols assms False that len
      by (intro distinct_filter_nth_neq [where P = "\<lambda>c. c \<noteq> Some 0"])
        (auto simp: colCells_def)
    then have "cellAt full i c \<noteq> Some v"
      using assms that len by (simp add: colCells_def)
    then show ?thesis using ag [OF that, of c] assms(8) by auto
  qed
  ultimately show ?thesis
    using len by (auto simp: rowHas_iff colHas_iff)
qed

lemma agreesOffZero_place:
  assumes "agreesOffZero board full" "r < length full" "cellAt full r c = Some v"
  shows "agreesOffZero (setCell board r c (Some v)) full"
  using assms by (auto simp: agreesOffZero_def cellAt_setCell_any)

lemma fillNums_complete:
  assumes IH: "\<And>board rng. square n board \<Longrightarrow> agreesOffZero board full \<Longrightarrow>
      emptyCount board < fuel \<Longrightarrow> \<exists>b' rng'. fillBoard fuel board rng = Inr (True, b', rng')"
    and full: "square n full" "isBoardValid full"
  shows "square n board \<Longrightarrow> agreesOffZero board full \<Longrightarrow> r < n \<Longrightarrow> c < n \<Longrightarrow>
      cellAt board r c = Some 0 \<Longrightarrow> cellAt full r c = Some v \<Longrightarrow> v \<noteq> 0 \<Longrightarrow>
      v \<in> set nums \<Longrightarrow> emptyCount board \<le> fuel \<Longrightarrow>
      \<exists>b' rng'. fillNums fuel r c nums board rng = Inr (True, b', rng')"
proof (induction nums arbitrary: rng)
  case Nil
  then show ?case by simp
next
  case (Cons num rest)
  have len: "length board = n" "length (board ! r) = n" "length full = n"
    using Cons.prems full by (auto simp: square_def list_all_length)
  let ?valid = "\<not> rowHas board r num \<and> \<not> colHas board c num"
  have v: "isValidPlacement board r c num = Inr ?valid"
    using Cons.prems len by (simp add: isValidPlacement_in_range)
  have vok: "\<not> rowHas board r v \<and> \<not> colHas board c v"
    using full Cons.prems by (intro solution_value_valid [where full = full and n = n]) auto
  show ?case
  proof (cases ?valid)
    case False
    with vok have "num \<noteq> v" by auto
    with Cons.prems have "v \<in> set rest" by simp
    from Cons.IH [OF Cons.prems(1-7) this Cons.prems(9), of rng] v False
    show ?thesis by simp
  next
    case True
    let ?b1 = "setCell board r c (Some num)"
    have "num \<noteq> 0"
      using v True Cons.prems len by (auto dest: valid_nonzero)
    then have "emptyCount ?b1 < emptyCount board"
      using Cons.prems len by (intro emptyCount_setCell_less) auto
    then have small: "emptyCount ?b1 < fuel" using Cons.prems by simp
    from fill_total [OF this] obtain res where "fillBoard fuel ?b1 rng = Inr res"
      by blast
    then obtain ok b1 rng1 where s: "fillBoard fuel ?b1 rng = Inr (ok, b1, rng1)"
      by (cases res) auto
    show ?thesis
    proof (cases ok)
      case ok: True
      with s v True show ?thesis by simp
    next
      case nok: False
      have "num \<noteq> v"
      proof
        assume "num = v"
        then have "agreesOffZero ?b1 full"
          using Cons.prems len by (intro agreesOffZero_place) auto
        moreover have "square n ?b1"
          using Cons.prems by (simp add: square_setCell)
        ultimately obtain b2 rng2 where "fillBoard fuel ?b1 rng = Inr (True, b2, rng2)"
          using IH small by blast
        with s nok show False by simp
      qed
      with Cons.prems have rest: "v \<in> set rest" by simp
      from s nok have "b1 = ?b1" by (simp add: fill_restores)
      then have restored: "setCell b1 r c (Some 0) = board"
        using Cons.prems len by (simp add: setCell_restore cellAt_def arrayGet_def)
      from Cons.IH [OF Cons.prems(1-7) rest Cons.prems(9), of rng1] s v True nok restored
      show ?thesis by simp
    qed
  qed
qed

lemma fill_complete:
  assumes full: "square n full" "isBoardValid full"
    "\<forall>i<n. \<forall>j<n. \<exists>v. cellAt full i j = Some v \<and> 1 \<le> v \<and> v \<le> int n"
  shows "square n board \<Longrightarrow> agreesOffZero board full \<Longrightarrow> emptyCount board < fuel \<Longrightarrow>
      \<exists>b' rng'. fillBoard fuel board rng = Inr (True, b', rng')"
proof (induction fuel arbitrary: board rng)
  case 0
  then show ?case by simp
next
  case (Suc fuel)
  have len: "length board = n" using Suc.prems by (simp add: square_def)
  show ?case
  proof (cases "findEmptyCell board")
    case None
    then show ?thesis by simp
  next
    case (Some rc)
    obtain r c where rc: "rc = (r, c)" by (cases rc)
    note e = findEmptyCell_Some [OF Some [unfolded rc]]
    obtain nums rng1 where sh: "shuffleArray (numsUpTo n) rng = (nums, rng1)"
      by (cases "shuffleArray (numsUpTo n) rng")
    have nums: "set nums = {1..int n}"
      using shuffleArray_set [of "numsUpTo n" rng] sh by (simp add: numsUpTo_set)
    from full(3) e len obtain v where v: "cellAt full r c = Some v" "1 \<le> v" "v \<le> int n"
      by blast
    have "\<exists>b' rng'. fillNums fuel r c nums board rng1 = Inr (True, b', rng')"
    proof (rule fillNums_complete [OF Suc.IH full(1,2) Suc.prems(1,2) _ _ e(3) v(1)])
      show "r < n" "c < n" using e len by auto
      show "v \<noteq> 0" "v \<in> set nums" using v nums by auto
      show "emptyCount board \<le> fuel" using Suc.prems by simp
    qed auto
    then show ?thesis
      using Some rc sh len by simp
  qed
qed

lemma generateBoard_result:
  assumes "n * n < fuel"
  shows "\<exists>board rng'. generateBoard fuel n rng = Inr (board, rng') \<and>
     square n board \<and> cellsWithin n board \<and> isBoardValid board"
proof -
  let ?e = "createEmptyBoard n"
  let ?full = "cyclicBoard n"
  have len: "length ?e = n" by (simp add: createEmptyBoard_def)
  have "int ((i + j) mod n) + 1 \<le> int n" if "i < n" for i j
  proof -
    have "(i + j) mod n < n" using that by simp
    then show ?thesis by linarith
  qed
  then have cyc: "\<forall>i<n. \<forall>j<n. \<exists>v. cellAt ?full i j = Some v \<and> 1 \<le> v \<and> v \<le> int n"
    by (simp add: cellAt_cyclicBoard)
  have "cellAt ?full i j = None" if "i < n" "\<not> j < n" for i j
    using that by (simp add: cellAt_def cyclicBoard_def arrayGet_def)
  then have ag: "agreesOffZero ?e ?full"
    by (auto simp: agreesOffZero_def cyclicBoard_def len cellAt_createEmptyBoard)
  have "emptyCount ?e \<le> length ?e * length ?e" by (rule emptyCount_le)
  then have small: "emptyCount ?e < fuel" using assms len by simp
  from fill_complete [OF square_cyclicBoard isBoardValid_cyclicBoard cyc
      square_createEmptyBoard ag small]
  obtain b' rng' where f: "fillBoard fuel ?e rng = Inr (True, b', rng')" by blast
  have cells0: "\<forall>i<n. \<forall>j<n. \<exists>v. cellAt ?e i j = Some v \<and> 0 \<le> v \<and> v \<le> int n"
    by (simp add: cellAt_createEmptyBoard)
  from fill_sound [OF f square_createEmptyBoard isBoardValid_createEmptyBoard cells0]
  have sq: "square n b'" and val: "isBoardValid b'" and none: "findEmptyCell b' = None"
    and cells: "\<forall>i<n. \<forall>j<n. \<exists>v. cellAt b' i j = Some v \<and> 0 \<le> v \<and> v \<le> int n"
    by simp_all
  have lb: "length b' = n" and rows: "\<And>i. i < n \<Longrightarrow> length (b' ! i) = n"
    using sq by (auto simp: square_def list_all_length)
  have "case b' ! i ! j of None \<Rightarrow> False | Some v \<Rightarrow> 1 \<le> v \<and> v \<le> int n"
    if "i < n" "j < n" for i j
  proof -
    from cells that obtain v where v: "cellAt b' i j = Some v" "0 \<le> v" "v \<le> int n" by blast
    moreover have "cellAt b' i j \<noteq> Some 0"
      using none that lb by (simp add: findEmptyCell_None)
    ultimately have "1 \<le> v" by auto
    with v show ?thesis
      using sq that by (simp add: square_cellAt)
  qed
  then have "cellsWithin n b'"
    using lb rows by (auto simp: cellsWithin_def list_all_length)
  with f sq val show ?thesis
    by (simp add: generateBoard_def)
qed

subsection \<open>One greedy pass of completeBoard\<close>

text \<open>One greedy pass of \<open>completeBoard\<close>.\<close>

lemma placeFirstValid_total:
  "r < length board \<Longrightarrow> \<exists>b' filled. placeFirstValid board r c cands = Inr (b', filled)"
  by (induction cands) (auto simp: isValidPlacement_in_range)

lemma placeFirstValid_filled:
  "placeFirstValid board r c cands = Inr (b', True) \<Longrightarrow> r < length board \<Longrightarrow>
     \<exists>num \<in> set cands. \<not> rowHas board r num \<and> \<not> colHas board c num \<and>
        b' = setCell board r c (Some num)"
proof (induction cands)
  case Nil
  then show ?case by simp
next
  case (Cons num rest)
  show ?case
  proof (cases "\<not> rowHas board r num \<and> \<not> colHas board c num")
    case True
    with Cons.prems have "b' = setCell board r c (Some num)"
      by (simp add: isValidPlacement_in_range)
    with True show ?thesis by auto
  next
    case False
    with Cons.prems have "placeFirstValid board r c rest = Inr (b', True)"
      by (simp add: isValidPlacement_in_range)
    from Cons.IH [OF this Cons.prems(2)] show ?thesis by auto
  qed
qed

lemma placeFirstValid_head:
  "r < length board \<Longrightarrow> \<not> rowHas board r num \<Longrightarrow> \<not> colHas board c num \<Longrightarrow>
     placeFirstValid board r c (num # rest) = Inr (setCell board r c (Some num), True)"
  by (simp add: isValidPlacement_in_range)

lemma fillEmptyCells_sound:
  "fillEmptyCells n cells board rng = Inr (Some b', rng') \<Longrightarrow>
   square n board \<Longrightarrow> isBoardValid board \<Longrightarrow>
   \<forall>i<n. \<forall>j<n. \<exists>v. cellAt board i j = Some v \<and> 0 \<le> v \<and> v \<le> int n \<Longrightarrow>
   \<forall>(r, c) \<in> set cells. r < n \<and> c < n \<Longrightarrow>
   square n b' \<and> isBoardValid b' \<and>
   (\<forall>i<n. \<forall>j<n. \<exists>v. cellAt b' i j = Some v \<and> 0 \<le> v \<and> v \<le> int n) \<and>
   (\<forall>i<n. \<forall>j<n. cellAt b' i j = Some 0 \<longrightarrow> cellAt board i j = Some 0 \<and> (i, j) \<notin> set cells)"
proof (induction cells arbitrary: board rng)
  case Nil
  then show ?case by simp
next
  case (Cons x cells)
  obtain r c where x: "x = (r, c)" by (cases x)
  have rc: "r < n" "c < n" using Cons.prems x by auto
  have len: "length board = n" using Cons.prems by (simp add: square_def)
  obtain cands rng1 where sh: "shuffleArray (numsUpTo n) rng = (cands, rng1)"
    by (cases "shuffleArray (numsUpTo n) rng")
  have cands: "set cands = {1..int n}"
    using shuffleArray_set [of "numsUpTo n" rng] sh by (simp add: numsUpTo_set)
  from placeFirstValid_total [of r board c cands] rc len obtain b1 filled where
    p: "placeFirstValid board r c cands = Inr (b1, filled)"
    by blast
  from Cons.prems(1) x sh p have filled: filled
    and rest: "fillEmptyCells n cells b1 rng1 = Inr (Some b', rng')"
    by (auto split: if_splits)
  from placeFirstValid_filled [OF p [unfolded eqTrueI [OF filled]]] rc len cands
  obtain num where num: "1 \<le> num" "num \<le> int n"
    "\<not> rowHas board r num" "\<not> colHas board c num" "b1 = setCell board r c (Some num)"
    by auto
  have sq1: "square n b1" using Cons.prems rc num by (simp add: square_setCell)
  have val1: "isBoardValid b1"
    using Cons.prems rc num len by (simp add: isBoardValid_place)
  have cells1: "\<forall>i<n. \<forall>j<n. \<exists>v. cellAt b1 i j = Some v \<and> 0 \<le> v \<and> v \<le> int n"
    unfolding num(5) using Cons.prems(4) len rc(1) num(1,2) by (intro cellsUpTo_place) auto
  have cell1: "cellAt b1 i j = (if i = r \<and> j = c then Some num else cellAt board i j)"
    if "i < n" for i j
    using that rc len num by (simp add: cellAt_setCell_any)
  have in1: "\<forall>(r, c) \<in> set cells. r < n \<and> c < n" using Cons.prems(5) by simp
  from Cons.IH [OF rest sq1 val1 cells1 in1]
  have r1: "square n b'" "isBoardValid b'"
    "\<forall>i<n. \<forall>j<n. \<exists>v. cellAt b' i j = Some v \<and> 0 \<le> v \<and> v \<le> int n"
    and z: "\<forall>i<n. \<forall>j<n. cellAt b' i j = Some 0 \<longrightarrow> cellAt b1 i j = Some 0 \<and> (i, j) \<notin> set cells"
    by simp_all
  have "cellAt board i j = Some 0 \<and> (i, j) \<notin> set (x # cells)"
    if "i < n" "j < n" "cellAt b' i j = Some 0" for i j
  proof -
    from z that have a: "cellAt b1 i j = Some 0" "(i, j) \<notin> set cells" by auto
    with cell1 [OF that(1), of j] num(1) have "(i, j) \<noteq> (r, c)" "cellAt board i j = Some 0"
      by (auto split: if_splits)
    with a x show ?thesis by simp
  qed
  with r1 show ?case by blast
qed

lemma fillEmptyCells_no_throw:
  "square n board \<Longrightarrow> \<forall>(r, c) \<in> set cells. r < n \<and> c < n \<Longrightarrow>
     \<exists>res rng'. fillEmptyCells n cells board rng = Inr (res, rng')"
proof (induction cells arbitrary: board rng)
  case Nil
  then show ?case by simp
next
  case (Cons x cells)
  obtain r c where x: "x = (r, c)" by (cases x)
  have rc: "r < n" "c < n" using Cons.prems x by auto
  have len: "length board = n" using Cons.prems by (simp add: square_def)
  obtain cands rng1 where sh: "shuffleArray (numsUpTo n) rng = (cands, rng1)"
    by (cases "shuffleArray (numsUpTo n) rng")
  from placeFirstValid_total [of r board c cands] rc len obtain b1 filled where
    p: "placeFirstValid board r c cands = Inr (b1, filled)"
    by blast
  show ?case
  proof (cases filled)
    case False
    with x sh p show ?thesis by simp
  next
    case True
    from placeFirstValid_filled [OF p [unfolded eqTrueI [OF True]]] rc len
    obtain num where "b1 = setCell board r c (Some num)" by auto
    then have "square n b1" using Cons.prems rc by (simp add: square_setCell)
    moreover have "\<forall>(r, c) \<in> set cells. r < n \<and> c < n" using Cons.prems by simp
    ultimately obtain res rng' where "fillEmptyCells n cells b1 rng1 = Inr (res, rng')"
      using Cons.IH by blast
    with x sh p True show ?thesis by simp
  qed
qed

subsection \<open>completeBoard: what it returns, how it fails, and that it retries\<close>

lemma emptyCells_props:
  "distinct (filter (\<lambda>(i, j). cellAt board i j = Some 0) (allCells n))"
  "\<forall>(r, c) \<in> set (filter (\<lambda>(i, j). cellAt board i j = Some 0) (allCells n)).
      r < n \<and> c < n \<and> cellAt board r c = Some 0"
  by (auto simp: distinct_allCells allCells_set)

lemma shuffleFrom_pick:
  "p \<le> k \<Longrightarrow> k < length xs \<Longrightarrow>
     \<exists>ds. \<forall>rest. \<exists>ys. shuffleFrom k xs (ds @ rest) = (ys, rest) \<and>
        length ys = length xs \<and> ys ! 0 = xs ! p"
proof (induction k arbitrary: xs p)
  case 0
  then have "\<forall>rest. \<exists>ys. shuffleFrom 0 xs ([] @ rest) = (ys, rest) \<and>
        length ys = length xs \<and> ys ! 0 = xs ! p" by simp
  then show ?case by blast
next
  case (Suc k)
  show ?case
  proof (cases "p = Suc k")
    case True
    let ?xs' = "xs[Suc k := xs ! 0, 0 := xs ! Suc k]"
    have "k < length ?xs'" using Suc.prems by simp
    from Suc.IH [OF _ this, of 0] obtain ds where
      ds: "\<And>rest. \<exists>ys. shuffleFrom k ?xs' (ds @ rest) = (ys, rest) \<and>
        length ys = length ?xs' \<and> ys ! 0 = ?xs' ! 0"
      by auto
    have "0 < length (xs[Suc k := xs ! 0])" using Suc.prems by (cases xs) simp_all
    then have "?xs' ! 0 = xs ! p" using True by simp
    with ds have "\<forall>rest. \<exists>ys. shuffleFrom (Suc k) xs ((0 # ds) @ rest) = (ys, rest) \<and>
        length ys = length xs \<and> ys ! 0 = xs ! p"
      by (simp add: randomIndex_def)
    then show ?thesis by blast
  next
    case False
    then have p: "p \<le> k" using Suc.prems by simp
    have same: "xs[Suc k := xs ! Suc k, Suc k := xs ! Suc k] = xs"
      by simp
    have "k < length xs" using Suc.prems by simp
    from Suc.IH [OF p this] obtain ds where
      ds: "\<And>rest. \<exists>ys. shuffleFrom k xs (ds @ rest) = (ys, rest) \<and>
        length ys = length xs \<and> ys ! 0 = xs ! p"
      by auto
    have "Suc k mod (Suc k + 1) = Suc k" by simp
    with ds same have "\<forall>rest. \<exists>ys. shuffleFrom (Suc k) xs ((Suc k # ds) @ rest) = (ys, rest) \<and>
        length ys = length xs \<and> ys ! 0 = xs ! p"
      by (simp add: randomIndex_def)
    then show ?thesis by blast
  qed
qed

lemma shuffleArray_pick:
  assumes "p < length xs"
  shows "\<exists>ds. \<forall>rest. \<exists>ys. shuffleArray xs (ds @ rest) = (xs ! p # ys, rest)"
proof -
  have "p \<le> length xs - 1" "length xs - 1 < length xs" using assms by simp_all
  from shuffleFrom_pick [OF this] obtain ds where
    ds: "\<And>rest. \<exists>ys. shuffleFrom (length xs - 1) xs (ds @ rest) = (ys, rest) \<and>
        length ys = length xs \<and> ys ! 0 = xs ! p"
    by auto
  have "\<exists>ys. shuffleArray xs (ds @ rest) = (xs ! p # ys, rest)" for rest
  proof -
    from ds [of rest] obtain ys where ys: "shuffleFrom (length xs - 1) xs (ds @ rest) = (ys, rest)"
      "length ys = length xs" "ys ! 0 = xs ! p" by blast
    then obtain y ys' where "ys = y # ys'" using assms by (cases ys) auto
    with ys show ?thesis by (simp add: shuffleArray_def)
  qed
  then show ?thesis by blast
qed

lemma fillEmptyCells_can_succeed:
  assumes full: "square n full" "isBoardValid full"
    "\<forall>i<n. \<forall>j<n. \<exists>v. cellAt full i j = Some v \<and> 1 \<le> v \<and> v \<le> int n"
  shows "square n board \<Longrightarrow> agreesOffZero board full \<Longrightarrow> distinct cells \<Longrightarrow>
    \<forall>(r, c) \<in> set cells. r < n \<and> c < n \<and> cellAt board r c = Some 0 \<Longrightarrow>
    \<exists>rng b'. \<forall>rest. fillEmptyCells n cells board (rng @ rest) = Inr (Some b', rest)"
proof (induction cells arbitrary: board)
  case Nil
  have "\<forall>rest. fillEmptyCells n [] board ([] @ rest) = Inr (Some board, rest)" by simp
  then show ?case by blast
next
  case (Cons x cells)
  obtain r c where x: "x = (r, c)" by (cases x)
  have rc: "r < n" "c < n" "cellAt board r c = Some 0" using Cons.prems x by auto
  have len: "length board = n" "length full = n"
    using Cons.prems full by (auto simp: square_def)
  from full(3) rc obtain v where v: "cellAt full r c = Some v" "1 \<le> v" "v \<le> int n" by blast
  have vok: "\<not> rowHas board r v" "\<not> colHas board c v"
    using solution_value_valid [OF full(1,2) Cons.prems(2) rc v(1)] v by auto
  let ?p = "nat (v - 1)"
  have p: "?p < length (numsUpTo n)" "numsUpTo n ! ?p = v"
    using v by (auto simp: numsUpTo_def)
  from shuffleArray_pick [OF p(1)] p(2) obtain ds where
    ds: "\<And>rest. \<exists>ys. shuffleArray (numsUpTo n) (ds @ rest) = (v # ys, rest)"
    by auto
  let ?b1 = "setCell board r c (Some v)"
  have sq1: "square n ?b1" using Cons.prems rc by (simp add: square_setCell)
  have ag1: "agreesOffZero ?b1 full"
    using Cons.prems(2) rc len v by (intro agreesOffZero_place) auto
  have "(r, c) \<notin> set cells" using Cons.prems(3) x by simp
  then have z1: "\<forall>(r', c') \<in> set cells. r' < n \<and> c' < n \<and> cellAt ?b1 r' c' = Some 0"
    using Cons.prems(4) rc len by (auto simp: cellAt_setCell_any)
  have d1: "distinct cells" using Cons.prems by simp
  from Cons.IH [OF sq1 ag1 d1 z1] obtain rng1 b' where
    r1: "\<And>rest. fillEmptyCells n cells ?b1 (rng1 @ rest) = Inr (Some b', rest)"
    by blast
  have "fillEmptyCells n (x # cells) board ((ds @ rng1) @ rest) = Inr (Some b', rest)" for rest
  proof -
    from ds [of "rng1 @ rest"] obtain ys where
      sh: "shuffleArray (numsUpTo n) (ds @ rng1 @ rest) = (v # ys, rng1 @ rest)" by blast
    have "placeFirstValid board r c (v # ys) = Inr (?b1, True)"
      using rc len vok by (intro placeFirstValid_head) auto
    with sh r1 [of rest] x show ?thesis by simp
  qed
  then show ?case by blast
qed

lemma cellsWithin_iff:
  assumes "square n board"
  shows "cellsWithin n board \<longleftrightarrow>
     (\<forall>i<n. \<forall>j<n. \<exists>v. cellAt board i j = Some v \<and> 1 \<le> v \<and> v \<le> int n)"
proof -
  have lb: "length board = n" and rows: "\<And>i. i < n \<Longrightarrow> length (board ! i) = n"
    using assms by (auto simp: square_def list_all_length)
  have "(case board ! i ! j of None \<Rightarrow> False | Some v \<Rightarrow> 1 \<le> v \<and> v \<le> int n) \<longleftrightarrow>
      (\<exists>v. cellAt board i j = Some v \<and> 1 \<le> v \<and> v \<le> int n)" if "i < n" "j < n" for i j
    using that assms by (auto simp: square_cellAt split: option.splits)
  then show ?thesis
    using lb rows by (auto simp: cellsWithin_def list_all_length)
qed

lemma generateBoard_removeNumbers_puzzle:
  assumes "n * n < fuel1" "generateBoard fuel1 n rng1 = Inr (full, rng2)"
    and "n * n < fuel2" "removeNumbers fuel2 full difficulty rng3 = Inr (puzzle, rng4)"
  shows "square n full" "isBoardValid full"
    "\<forall>i<n. \<forall>j<n. \<exists>v. cellAt full i j = Some v \<and> 1 \<le> v \<and> v \<le> int n"
    "square n puzzle" "isBoardValid puzzle" "agreesOffZero puzzle full"
    "\<forall>i<n. \<forall>j<n. \<exists>v. cellAt puzzle i j = Some v \<and> 0 \<le> v \<and> v \<le> int n"
proof -
  from generateBoard_result [OF assms(1), of rng1] obtain b r where
    "generateBoard fuel1 n rng1 = Inr (b, r)" "square n b" "cellsWithin n b" "isBoardValid b"
    by blast
  with assms(2) have full: "square n full" "cellsWithin n full" "isBoardValid full"
    by simp_all
  then show "square n full" "isBoardValid full" by simp_all
  show cells: "\<forall>i<n. \<forall>j<n. \<exists>v. cellAt full i j = Some v \<and> 1 \<le> v \<and> v \<le> int n"
    using full by (simp add: cellsWithin_iff)
  have len: "length full = n" using full by (simp add: square_def)
  have "length full * length full < fuel2" using assms(3) len by simp
  from removeNumbers_inv [OF this, of difficulty rng3] obtain q r' where
    q: "removeNumbers fuel2 full difficulty rng3 = Inr (q, r')" "agreesOffZero q full"
      "isBoardValid full \<longrightarrow> isBoardValid q"
      "square (length full) full \<longrightarrow> square (length full) q"
    by blast
  from q(1) assms(4) have "q = puzzle" by simp
  with q full len show p: "square n puzzle" "isBoardValid puzzle" "agreesOffZero puzzle full"
    by simp_all
  show "\<forall>i<n. \<forall>j<n. \<exists>v. cellAt puzzle i j = Some v \<and> 0 \<le> v \<and> v \<le> int n"
  proof (intro allI impI)
    fix i j assume ij: "i < n" "j < n"
    from cells ij obtain v where v: "cellAt full i j = Some v" "1 \<le> v" "v \<le> int n"
      by blast
    from p(3) ij len have "cellAt puzzle i j = Some 0 \<or> cellAt puzzle i j = cellAt full i j"
      by (simp add: agreesOffZero_def)
    then show "\<exists>v. cellAt puzzle i j = Some v \<and> 0 \<le> v \<and> v \<le> int n"
    proof
      assume "cellAt puzzle i j = Some 0"
      then show ?thesis by simp
    next
      assume "cellAt puzzle i j = cellAt full i j"
      with v show ?thesis by simp
    qed
  qed
qed

text \<open>What \<open>completeBoard\<close> returns, and how it fails.\<close>

lemma completeBoard_sound:
  "completeBoard stack board rng = Inr (b', rng') \<Longrightarrow>
   square n board \<Longrightarrow> isBoardValid board \<Longrightarrow>
   \<forall>i<n. \<forall>j<n. \<exists>v. cellAt board i j = Some v \<and> 0 \<le> v \<and> v \<le> int n \<Longrightarrow>
   square n b' \<and> isBoardValid b' \<and>
     (\<forall>i<n. \<forall>j<n. \<exists>v. cellAt b' i j = Some v \<and> 1 \<le> v \<and> v \<le> int n)"
proof (induction stack arbitrary: rng)
  case 0
  then show ?case by simp
next
  case (Suc stack)
  note prems = Suc.prems(2-4)
  have len: "length board = n" using prems by (simp add: square_def)
  let ?cells = "filter (\<lambda>(i, j). cellAt board i j = Some 0) (allCells n)"
  have inr: "\<forall>(r, c) \<in> set ?cells. r < n \<and> c < n"
    by (auto simp: allCells_set)
  from fillEmptyCells_no_throw [OF prems(1) inr, of rng] obtain r rng1 where
    pass: "fillEmptyCells n ?cells board rng = Inr (r, rng1)" by blast
  show ?case
  proof (cases r)
    case None
    with Suc.prems(1) pass len have "completeBoard stack board rng1 = Inr (b', rng')" by simp
    from Suc.IH [OF this prems] show ?thesis .
  next
    case (Some cb)
    with Suc.prems(1) pass len have res: "cb = b'" by simp
    note snd = fillEmptyCells_sound [OF pass [unfolded Some] prems inr]
    have sq: "square n cb" and val: "isBoardValid cb"
      and cells: "\<forall>i<n. \<forall>j<n. \<exists>v. cellAt cb i j = Some v \<and> 0 \<le> v \<and> v \<le> int n"
      and z: "\<forall>i<n. \<forall>j<n. cellAt cb i j = Some 0 \<longrightarrow>
          cellAt board i j = Some 0 \<and> (i, j) \<notin> set ?cells"
      using snd by blast+
    have "\<exists>v. cellAt cb i j = Some v \<and> 1 \<le> v \<and> v \<le> int n" if "i < n" "j < n" for i j
    proof -
      from cells that obtain v where v: "cellAt cb i j = Some v" "0 \<le> v" "v \<le> int n"
        by blast
      have "cellAt cb i j \<noteq> Some 0"
        using z that by (auto simp: allCells_set)
      with v have "1 \<le> v" by auto
      with v show ?thesis by simp
    qed
    with res sq val show ?thesis by simp
  qed
qed

lemma completeBoard_failure:
  "completeBoard stack board rng = Inl e \<Longrightarrow> square n board \<Longrightarrow> e = RangeError"
proof (induction stack arbitrary: rng)
  case 0
  then show ?case by simp
next
  case (Suc stack)
  have len: "length board = n" using Suc.prems by (simp add: square_def)
  let ?cells = "filter (\<lambda>(i, j). cellAt board i j = Some 0) (allCells n)"
  have inr: "\<forall>(r, c) \<in> set ?cells. r < n \<and> c < n"
    by (auto simp: allCells_set)
  from fillEmptyCells_no_throw [OF Suc.prems(2) inr, of rng] obtain r rng1 where
    pass: "fillEmptyCells n ?cells board rng = Inr (r, rng1)" by blast
  show ?case
  proof (cases r)
    case None
    with Suc.prems(1) pass len have "completeBoard stack board rng1 = Inl e" by simp
    from Suc.IH [OF this Suc.prems(2)] show ?thesis .
  next
    case (Some cb)
    with Suc.prems(1) pass len show ?thesis by simp
  qed
qed

text \<open>
  A pass reads its draws in blocks, one shuffle per cell visited, and a source that has
  run out reads as zeros: the pass on some draws is the pass on those draws padded with
  zeros to the blocks it reads, and it hands on what follows them.
\<close>

lemma shuffleFrom_padded:
  "k \<le> L \<Longrightarrow>
     shuffleFrom k xs ((rng @ replicate (L - length rng) 0) @ ext) =
       (fst (shuffleFrom k xs rng),
        (drop k rng @ replicate ((L - k) - length (drop k rng)) 0) @ ext)"
proof (induction k arbitrary: xs rng L)
  case 0
  then show ?case by simp
next
  case (Suc k)
  then obtain L' where L: "L = Suc L'" "k \<le> L'" by (cases L) auto
  show ?case
  proof (cases rng)
    case Nil
    have "shuffleFrom (Suc k) xs ((replicate L 0) @ ext) =
        shuffleFrom k (xs[Suc k := xs ! 0, 0 := xs ! Suc k]) (replicate L' 0 @ ext)"
      using L by (simp add: randomIndex_def)
    also have "\<dots> = (fst (shuffleFrom k (xs[Suc k := xs ! 0, 0 := xs ! Suc k]) []),
        replicate (L' - k) 0 @ ext)"
      using Suc.IH [OF L(2), of "xs[Suc k := xs ! 0, 0 := xs ! Suc k]" "[]" ] by simp
    finally show ?thesis
      using Nil L by (simp add: randomIndex_def)
  next
    case (Cons r rs)
    let ?j = "r mod (Suc k + 1)"
    have "shuffleFrom (Suc k) xs (((r # rs) @ replicate (L - length (r # rs)) 0) @ ext) =
        shuffleFrom k (xs[Suc k := xs ! ?j, ?j := xs ! Suc k])
          ((rs @ replicate (L' - length rs) 0) @ ext)"
      using L by (simp add: randomIndex_def)
    also have "\<dots> = (fst (shuffleFrom k (xs[Suc k := xs ! ?j, ?j := xs ! Suc k]) rs),
        (drop k rs @ replicate ((L' - k) - length (drop k rs)) 0) @ ext)"
      by (rule Suc.IH [OF L(2)])
    finally show ?thesis
      using Cons L by (simp add: randomIndex_def)
  qed
qed

lemma shuffleFrom_rest: "snd (shuffleFrom k xs rng) = drop k rng"
proof (induction k arbitrary: xs rng)
  case 0
  then show ?case by simp
next
  case (Suc k)
  then show ?case by (cases rng) (simp_all add: randomIndex_def)
qed

lemma shuffleArray_padded:
  assumes "length xs - 1 \<le> L" "shuffleArray xs rng = (ys, rng1)"
  shows "rng1 = drop (length xs - 1) rng"
    "shuffleArray xs ((rng @ replicate (L - length rng) 0) @ ext) =
       (ys, (rng1 @ replicate ((L - (length xs - 1)) - length rng1) 0) @ ext)"
proof -
  show r: "rng1 = drop (length xs - 1) rng"
    using assms(2) shuffleFrom_rest [of "length xs - 1" xs rng] by (simp add: shuffleArray_def)
  have "ys = fst (shuffleFrom (length xs - 1) xs rng)"
    using assms(2) by (simp add: shuffleArray_def)
  then show "shuffleArray xs ((rng @ replicate (L - length rng) 0) @ ext) =
       (ys, (rng1 @ replicate ((L - (length xs - 1)) - length rng1) 0) @ ext)"
    unfolding shuffleArray_def r
    using shuffleFrom_padded [OF assms(1), of xs rng ext] by simp
qed

lemma fillEmptyCells_padded:
  "fillEmptyCells n cells board rng = Inr (res, rem) \<Longrightarrow>
   \<exists>v. (res = None \<longrightarrow> 1 \<le> v) \<and>
     (\<forall>L ext. v * (n - 1) \<le> L \<longrightarrow>
        fillEmptyCells n cells board ((rng @ replicate (L - length rng) 0) @ ext) =
          Inr (res, (drop (v * (n - 1)) rng @
                replicate ((L - v * (n - 1)) - length (drop (v * (n - 1)) rng)) 0) @ ext))"
proof (induction cells arbitrary: board rng)
  case Nil
  then have "res = Some board" by simp
  then have "(res = None \<longrightarrow> 1 \<le> (0::nat)) \<and>
     (\<forall>L ext. 0 * (n - 1) \<le> L \<longrightarrow>
        fillEmptyCells n [] board ((rng @ replicate (L - length rng) 0) @ ext) =
          Inr (res, (drop (0 * (n - 1)) rng @
                replicate ((L - 0 * (n - 1)) - length (drop (0 * (n - 1)) rng)) 0) @ ext))"
    by simp
  then show ?case by blast
next
  case (Cons x cells)
  obtain r c where x: "x = (r, c)" by (cases x)
  let ?B = "n - 1"
  have lenB: "length (numsUpTo n) - 1 = ?B" by (simp add: numsUpTo_def)
  obtain cands rng1 where sh: "shuffleArray (numsUpTo n) rng = (cands, rng1)"
    by (cases "shuffleArray (numsUpTo n) rng")
  have rng1: "rng1 = drop ?B rng"
    using shuffleArray_padded(1) [OF _ sh, of ?B] lenB by simp
  have shp: "shuffleArray (numsUpTo n) ((rng @ replicate (L - length rng) 0) @ ext) =
       (cands, (rng1 @ replicate ((L - ?B) - length rng1) 0) @ ext)" if "?B \<le> L" for L ext
    using shuffleArray_padded(2) [OF _ sh, of L ext] that lenB by simp
  from Cons.prems x sh obtain b1 filled where
    p: "placeFirstValid board r c cands = Inr (b1, filled)"
    by (auto split: sum.splits)
  show ?case
  proof (cases filled)
    case False
    with Cons.prems x sh p have res: "res = None" by simp
    have "(res = None \<longrightarrow> 1 \<le> (1::nat)) \<and>
     (\<forall>L ext. 1 * ?B \<le> L \<longrightarrow>
        fillEmptyCells n (x # cells) board ((rng @ replicate (L - length rng) 0) @ ext) =
          Inr (res, (drop (1 * ?B) rng @
                replicate ((L - 1 * ?B) - length (drop (1 * ?B) rng)) 0) @ ext))"
      using x p False res shp rng1 by simp
    then show ?thesis by blast
  next
    case True
    with Cons.prems x sh p have rest: "fillEmptyCells n cells b1 rng1 = Inr (res, rem)"
      by simp
    from Cons.IH [OF rest] obtain v where
      v1: "res = None \<longrightarrow> 1 \<le> v"
      and v2: "\<And>L ext. v * ?B \<le> L \<Longrightarrow>
        fillEmptyCells n cells b1 ((rng1 @ replicate (L - length rng1) 0) @ ext) =
          Inr (res, (drop (v * ?B) rng1 @
                replicate ((L - v * ?B) - length (drop (v * ?B) rng1)) 0) @ ext)"
      by blast
    have "fillEmptyCells n (x # cells) board ((rng @ replicate (L - length rng) 0) @ ext) =
          Inr (res, (drop (Suc v * ?B) rng @
                replicate ((L - Suc v * ?B) - length (drop (Suc v * ?B) rng)) 0) @ ext)"
      if L: "Suc v * ?B \<le> L" for L ext
    proof -
      have B: "?B \<le> L" and vB: "v * ?B \<le> L - ?B" using L by simp_all
      have d: "drop (v * ?B) rng1 = drop (Suc v * ?B) rng"
        unfolding rng1 by (simp add: add.commute)
      have l: "L - ?B - v * ?B = L - Suc v * ?B" by simp
      have "fillEmptyCells n (x # cells) board ((rng @ replicate (L - length rng) 0) @ ext) =
          fillEmptyCells n cells b1 ((rng1 @ replicate ((L - ?B) - length rng1) 0) @ ext)"
        using x p True shp [OF B, of ext] by simp
      also have "\<dots> = Inr (res, (drop (v * ?B) rng1 @
                replicate ((L - ?B - v * ?B) - length (drop (v * ?B) rng1)) 0) @ ext)"
        by (rule v2 [OF vB])
      finally show ?thesis
        unfolding d l .
    qed
    with v1 have "(res = None \<longrightarrow> 1 \<le> Suc v) \<and>
     (\<forall>L ext. Suc v * ?B \<le> L \<longrightarrow>
        fillEmptyCells n (x # cells) board ((rng @ replicate (L - length rng) 0) @ ext) =
          Inr (res, (drop (Suc v * ?B) rng @
                replicate ((L - Suc v * ?B) - length (drop (Suc v * ?B) rng)) 0) @ ext))"
      by simp
    then show ?thesis by blast
  qed
qed

text \<open>On a board of at most one row the shuffle draws nothing, so a pass does not depend
  on the draws.\<close>

lemma fillEmptyCells_small:
  "n \<le> 1 \<Longrightarrow> fillEmptyCells n cells board rng = Inr (res, rem) \<Longrightarrow>
     fillEmptyCells n cells board rng2 = Inr (res, rng2)"
proof (induction cells arbitrary: board)
  case Nil
  then show ?case by simp
next
  case (Cons x cells)
  obtain r c where x: "x = (r, c)" by (cases x)
  have sh: "shuffleArray (numsUpTo n) g = (numsUpTo n, g)" for g
    using Cons.prems(1) by (simp add: shuffleArray_def numsUpTo_def)
  from Cons.prems(2) x sh obtain b1 filled where
    p: "placeFirstValid board r c (numsUpTo n) = Inr (b1, filled)"
    by (auto split: sum.splits)
  show ?case
  proof (cases filled)
    case False
    with Cons.prems(2) x sh p show ?thesis by simp
  next
    case True
    with Cons.prems(2) x sh p have "fillEmptyCells n cells b1 rng = Inr (res, rem)" by simp
    from Cons.IH [OF Cons.prems(1) this] x sh p True show ?thesis by simp
  qed
qed

text \<open>The restart retries: whatever the draws so far, some draws after them make
  \<open>completeBoard\<close> return, given the stack for the passes that dead-end before.\<close>

lemma completeBoard_can_still_return:
  assumes full: "square n full" "isBoardValid full"
    "\<forall>i<n. \<forall>j<n. \<exists>v. cellAt full i j = Some v \<and> 1 \<le> v \<and> v \<le> int n"
    and board: "square n board" "agreesOffZero board full"
  shows "\<exists>more stack b' rng'. completeBoard stack board (draws @ more) = Inr (b', rng')"
proof (induction draws rule: length_induct)
  case (1 draws)
  have len: "length board = n" using board by (simp add: square_def)
  let ?cells = "filter (\<lambda>(i, j). cellAt board i j = Some 0) (allCells n)"
  let ?B = "n - 1"
  from fillEmptyCells_can_succeed [OF full board emptyCells_props [of board n]]
  obtain good bg where good: "\<And>rest. fillEmptyCells n ?cells board (good @ rest) = Inr (Some bg, rest)"
    by blast
  show ?case
  proof (cases "draws = []")
    case True
    from good [of "[]"] have "completeBoard (Suc 0) board (draws @ good) = Inr (bg, [])"
      using len True by simp
    then show ?thesis by blast
  next
    case False
    have inr: "\<forall>(r, c) \<in> set ?cells. r < n \<and> c < n"
      by (auto simp: allCells_set)
    from fillEmptyCells_no_throw [OF board(1) inr, of draws] obtain res rem where
      pass: "fillEmptyCells n ?cells board draws = Inr (res, rem)" by blast
    from fillEmptyCells_padded [OF pass] obtain v where
      v1: "res = None \<longrightarrow> 1 \<le> v"
      and v2: "\<And>L ext. v * ?B \<le> L \<Longrightarrow>
        fillEmptyCells n ?cells board ((draws @ replicate (L - length draws) 0) @ ext) =
          Inr (res, (drop (v * ?B) draws @
                replicate ((L - v * ?B) - length (drop (v * ?B) draws)) 0) @ ext)"
      by blast
    let ?L = "max (v * ?B) (length draws)"
    let ?Z = "replicate (?L - length draws) (0::nat)"
    let ?ds = "drop (v * ?B) draws"
    have "(?L - v * ?B) - length ?ds = 0" by (simp add: max_def)
    with v2 [of ?L] have passZ: "fillEmptyCells n ?cells board (draws @ ?Z @ ext) = Inr (res, ?ds @ ext)"
      for ext by simp
    show ?thesis
    proof (cases res)
      case (Some cb)
      from passZ [of "[]"] Some have "completeBoard (Suc 0) board (draws @ ?Z) = Inr (cb, ?ds)"
        using len by simp
      then show ?thesis by blast
    next
      case None
      have "2 \<le> n"
      proof (rule ccontr)
        assume "\<not> 2 \<le> n"
        then have "n \<le> 1" by simp
        from fillEmptyCells_small [OF this good [of "[]"], of draws] pass None
        show False by simp
      qed
      with v1 None have "1 \<le> v * ?B" by simp
      with False have "length ?ds < length draws" by (cases draws) auto
      with "1.IH" obtain more stack b' rng' where
        ih: "completeBoard stack board (?ds @ more) = Inr (b', rng')"
        by blast
      from passZ [of more] None ih
      have "completeBoard (Suc stack) board (draws @ ?Z @ more) = Inr (b', rng')"
        using len by simp
      then show ?thesis by blast
    qed
  qed
qed

subsection \<open>The store: what the solver and the removal loop write\<close>

lemma length_deref [simp]: "length (deref st board) = length board"
  by (simp add: deref_def)

lemma length_setCellS [simp]: "length (setCellS st board i j v) = length st"
  by (simp add: setCellS_def)

lemma setCellS_frame:
  assumes "i < length board" "a \<notin> set board"
  shows "setCellS st board i j v ! a = st ! a"
proof -
  have "board ! i \<in> set board" using assms(1) by simp
  with assms(2) have "board ! i \<noteq> a" by auto
  then show ?thesis by (simp add: setCellS_def)
qed

lemma deref_setCellS:
  assumes "distinct board" "i < length board" "\<forall>a \<in> set board. a < length st"
  shows "deref (setCellS st board i j v) board = setCell (deref st board) i j v"
proof (rule nth_equalityI)
  show "length (deref (setCellS st board i j v) board) = length (setCell (deref st board) i j v)"
    by simp
next
  fix k assume "k < length (deref (setCellS st board i j v) board)"
  then have k: "k < length board" by simp
  have "board ! k = board ! i \<longleftrightarrow> k = i"
    using assms k by (simp add: nth_eq_iff_index_eq)
  moreover have "board ! i < length st" using assms by simp
  ultimately show "deref (setCellS st board i j v) board ! k = setCell (deref st board) i j v ! k"
    using k assms(2) by (auto simp: deref_def setCellS_def setCell_def nth_list_update)
qed

lemma cellAtS_deref:
  "i < length board \<Longrightarrow> cellAtS st board i j = cellAt (deref st board) i j"
  by (simp add: cellAtS_def cellAt_def deref_def)

lemma boardCopyS_props:
  assumes "boardCopyS st board = (copy, st')" "\<forall>a \<in> set board. a < length st"
  shows "deref st' copy = deref st board" "distinct copy"
    "\<forall>a \<in> set copy. length st \<le> a \<and> a < length st'"
    "\<forall>a < length st. st' ! a = st ! a" "length st' = length st + length board"
proof -
  have c: "copy = [length st..<length st + length board]"
    and s: "st' = st @ map (\<lambda>a. st ! a) board"
    using assms(1) by (simp_all add: boardCopyS_def)
  show "deref st' copy = deref st board"
    unfolding c s by (rule nth_equalityI) (auto simp: deref_def nth_append)
  show "distinct copy" "\<forall>a \<in> set copy. length st \<le> a \<and> a < length st'"
    "\<forall>a < length st. st' ! a = st ! a" "length st' = length st + length board"
    unfolding c s by (auto simp: nth_append)
qed

text \<open>The solver on the store does what the solver does on the board, and writes to the
  rows of that board only.\<close>

lemma solveCandidatesS_refines:
  assumes IH: "\<And>st used. \<forall>a \<in> set board. a < length st \<Longrightarrow>
      (case solveWithStrategiesS fuel st board used of
         Inl e \<Rightarrow> solveWithStrategies fuel (deref st board) used = Inl e
       | Inr (ok, st', u') \<Rightarrow>
           solveWithStrategies fuel (deref st board) used = Inr (ok, deref st' board, u') \<and>
           length st' = length st \<and> (\<forall>a. a \<notin> set board \<longrightarrow> st' ! a = st ! a))"
    and board: "distinct board" "r < length board"
  shows "\<forall>a \<in> set board. a < length st \<Longrightarrow>
      (case solveCandidatesS fuel r c cands st board used of
         Inl e \<Rightarrow> solveCandidates fuel r c cands (deref st board) used = Inl e
       | Inr (ok, st', u') \<Rightarrow>
           solveCandidates fuel r c cands (deref st board) used = Inr (ok, deref st' board, u') \<and>
           length st' = length st \<and> (\<forall>a. a \<notin> set board \<longrightarrow> st' ! a = st ! a))"
proof (induction cands arbitrary: st used)
  case Nil
  then show ?case by simp
next
  case (Cons num rest)
  let ?st1 = "setCellS st board r c (Some num)"
  have v1: "\<forall>a \<in> set board. a < length ?st1" using Cons.prems by simp
  have d1: "deref ?st1 board = setCell (deref st board) r c (Some num)"
    using board Cons.prems by (simp add: deref_setCellS)
  note ih = IH [OF v1, of used]
  show ?case
  proof (cases "solveWithStrategiesS fuel ?st1 board used")
    case (Inl e)
    with ih d1 show ?thesis by simp
  next
    case (Inr res)
    obtain ok st2 u2 where res: "res = (ok, st2, u2)" by (cases res)
    from ih Inr res d1 have
      s: "solveWithStrategies fuel (setCell (deref st board) r c (Some num)) used =
          Inr (ok, deref st2 board, u2)"
      and l2: "length st2 = length st" and f2: "\<forall>a. a \<notin> set board \<longrightarrow> st2 ! a = st ! a"
      by (simp_all add: setCellS_frame board)
    show ?thesis
    proof (cases ok)
      case True
      with Inr res s l2 f2 show ?thesis by simp
    next
      case False
      let ?st3 = "setCellS st2 board r c (Some 0)"
      have v3: "\<forall>a \<in> set board. a < length ?st3" using Cons.prems l2 by simp
      have d3: "deref ?st3 board = setCell (deref st2 board) r c (Some 0)"
        using board Cons.prems l2 by (simp add: deref_setCellS)
      have f3: "\<forall>a. a \<notin> set board \<longrightarrow> ?st3 ! a = st ! a"
        using f2 board by (simp add: setCellS_frame)
      from Cons.IH [OF v3, of u2] d3 f3 l2 Inr res s False show ?thesis
        by (auto split: sum.splits)
    qed
  qed
qed

lemma solveS_refines:
  "distinct board \<Longrightarrow> \<forall>a \<in> set board. a < length st \<Longrightarrow>
      (case solveWithStrategiesS fuel st board used of
         Inl e \<Rightarrow> solveWithStrategies fuel (deref st board) used = Inl e
       | Inr (ok, st', u') \<Rightarrow>
           solveWithStrategies fuel (deref st board) used = Inr (ok, deref st' board, u') \<and>
           length st' = length st \<and> (\<forall>a. a \<notin> set board \<longrightarrow> st' ! a = st ! a))"
proof (induction fuel arbitrary: st used)
  case 0
  then show ?case by simp
next
  case (Suc fuel)
  show ?case
  proof (cases "findEmptyCell (deref st board)")
    case None
    then show ?thesis by simp
  next
    case (Some rc)
    obtain r c where rc: "rc = (r, c)" by (cases rc)
    have r: "r < length board"
      using findEmptyCell_Some(1) [OF Some [unfolded rc]] by simp
    show ?thesis
    proof (cases "findCandidates (deref st board) r c (numsUpTo (length board))")
      case (Inl e)
      with Some rc show ?thesis by simp
    next
      case (Inr cands)
      have "case solveCandidatesS fuel r c cands st board (trackStrategies (length cands) used) of
         Inl e \<Rightarrow> solveCandidates fuel r c cands (deref st board)
             (trackStrategies (length cands) used) = Inl e
       | Inr (ok, st', u') \<Rightarrow>
           solveCandidates fuel r c cands (deref st board)
             (trackStrategies (length cands) used) = Inr (ok, deref st' board, u') \<and>
           length st' = length st \<and> (\<forall>a. a \<notin> set board \<longrightarrow> st' ! a = st ! a)"
        by (rule solveCandidatesS_refines [OF Suc.IH [OF Suc.prems(1)] Suc.prems(1) r Suc.prems(2)])
      with Some rc Inr show ?thesis by (auto split: sum.splits)
    qed
  qed
qed

lemma removeLoopS_refines:
  assumes puzzle: "distinct puzzle"
  shows "\<forall>a \<in> set puzzle. n0 \<le> a \<and> a < length st \<Longrightarrow>
     \<forall>(r, c) \<in> set cells. r < length puzzle \<Longrightarrow>
     (case removeLoopS fuel target maxAttempts cells st puzzle removed attempts of
        Inl e \<Rightarrow> removeLoop fuel target maxAttempts cells (deref st puzzle) removed attempts = Inl e
      | Inr st' \<Rightarrow>
          removeLoop fuel target maxAttempts cells (deref st puzzle) removed attempts =
            Inr (deref st' puzzle) \<and>
          (\<forall>a < n0. st' ! a = st ! a) \<and> length st \<le> length st')"
proof (induction cells arbitrary: st removed attempts rule: rev_induct)
  case Nil
  show ?case
    by (subst removeLoopS.simps, subst removeLoop.simps) simp
next
  case (snoc x xs)
  obtain r c where x: "x = (r, c)" by (cases x)
  have r: "r < length puzzle" using snoc.prems x by auto
  have xs: "\<forall>(r, c) \<in> set xs. r < length puzzle" using snoc.prems by auto
  have valid: "\<forall>a \<in> set puzzle. a < length st" using snoc.prems by auto
  show ?case
  proof (cases "removed < target \<and> attempts < maxAttempts")
    case False
    then show ?thesis
      by (subst removeLoopS.simps, subst removeLoop.simps) auto
  next
    case True
    let ?st0 = "setCellS st puzzle r c (Some 0)"
    let ?p1 = "setCell (deref st puzzle) r c (Some 0)"
    have d0: "deref ?st0 puzzle = ?p1"
      using puzzle r valid by (simp add: deref_setCellS)
    have low0: "\<forall>a < n0. ?st0 ! a = st ! a"
      using snoc.prems(1) r by (auto intro!: setCellS_frame)
    obtain copy st1 where cp: "boardCopyS ?st0 puzzle = (copy, st1)"
      by (cases "boardCopyS ?st0 puzzle")
    have valid0: "\<forall>a \<in> set puzzle. a < length ?st0" using valid by simp
    note c = boardCopyS_props [OF cp valid0]
    have validc: "\<forall>a \<in> set copy. a < length st1" using c(3) by auto
    have low1: "\<forall>a < n0. st1 ! a = st ! a"
    proof (intro allI impI)
      fix a assume a: "a < n0"
      obtain b where "b \<in> set puzzle" using r by (cases puzzle) auto
      with snoc.prems(1) have "n0 \<le> length st" by auto
      with a have "a < length ?st0" by simp
      with c(4) low0 a show "st1 ! a = st ! a" by simp
    qed
    have n0: "n0 \<le> length st"
    proof -
      obtain b where "b \<in> set puzzle" using r by (cases puzzle) auto
      with snoc.prems(1) show ?thesis by auto
    qed
    note sr = solveS_refines [OF c(2) validc, of fuel "{}"]
    have bc: "deref st1 copy = ?p1"
      using c(1) d0 by simp
    show ?thesis
    proof (cases "solveWithStrategiesS fuel st1 copy {}")
      case (Inl e)
      with sr have sv: "solveWithStrategies fuel ?p1 {} = Inl e"
        using bc by simp
      have uS: "removeLoopS fuel target maxAttempts (xs @ [x]) st puzzle removed attempts = Inl e"
        by (subst removeLoopS.simps) (simp add: Inl cp True x)
      have uV: "removeLoop fuel target maxAttempts (xs @ [x]) (deref st puzzle) removed attempts =
          Inl e"
        by (subst removeLoop.simps) (simp add: sv True x)
      show ?thesis unfolding uS uV by simp
    next
      case (Inr res)
      obtain ok st2 used where res: "res = (ok, st2, used)" by (cases res)
      from sr Inr res bc have
        s: "solveWithStrategies fuel ?p1 {} = Inr (ok, deref st2 copy, used)"
        and l2: "length st2 = length st1"
        and f2: "\<forall>a. a \<notin> set copy \<longrightarrow> st2 ! a = st1 ! a"
        by simp_all
      have same2: "st2 ! a = ?st0 ! a" if "a < length st" for a
      proof -
        have "a \<notin> set copy" using c(3) that by auto
        with f2 have "st2 ! a = st1 ! a" by simp
        also have "\<dots> = ?st0 ! a" using c(4) that by simp
        finally show ?thesis .
      qed
      have d2: "deref st2 puzzle = ?p1"
      proof -
        have "deref st2 puzzle = deref ?st0 puzzle"
          using valid same2 by (auto simp: deref_def)
        with d0 show ?thesis by simp
      qed
      have low2: "\<forall>a < n0. st2 ! a = st ! a"
        using same2 low0 n0 by auto
      have inv2: "\<forall>a \<in> set puzzle. n0 \<le> a \<and> a < length st2"
        using snoc.prems(1) l2 c(5) by auto
      have len2: "length st \<le> length st2" using l2 c(5) by simp
      show ?thesis
      proof (cases ok)
        case ok: True
        from snoc.IH [OF inv2 xs, of "removed + 1" "attempts + 1"] d2 low2 len2
        have ih: "case removeLoopS fuel target maxAttempts xs st2 puzzle (removed + 1) (attempts + 1) of
            Inl e \<Rightarrow> removeLoop fuel target maxAttempts xs ?p1 (removed + 1) (attempts + 1) = Inl e
          | Inr st' \<Rightarrow>
              removeLoop fuel target maxAttempts xs ?p1 (removed + 1) (attempts + 1) =
                Inr (deref st' puzzle) \<and>
              (\<forall>a < n0. st' ! a = st ! a) \<and> length st \<le> length st'"
          by (auto split: sum.splits)
        have uS: "removeLoopS fuel target maxAttempts (xs @ [x]) st puzzle removed attempts =
            removeLoopS fuel target maxAttempts xs st2 puzzle (removed + 1) (attempts + 1)"
          by (subst removeLoopS.simps) (simp add: Inr res cp True x ok)
        have uV: "removeLoop fuel target maxAttempts (xs @ [x]) (deref st puzzle) removed attempts =
            removeLoop fuel target maxAttempts xs ?p1 (removed + 1) (attempts + 1)"
          by (subst removeLoop.simps) (simp add: s True x ok)
        show ?thesis unfolding uS uV by (rule ih)
      next
        case nok: False
        let ?st3 = "setCellS st2 puzzle r c (cellAtS st puzzle r c)"
        let ?p3 = "setCell ?p1 r c (cellAt (deref st puzzle) r c)"
        have valid2: "\<forall>a \<in> set puzzle. a < length st2" using inv2 by auto
        have d3: "deref ?st3 puzzle = ?p3"
          using puzzle r valid2 d2 by (simp add: deref_setCellS cellAtS_deref)
        have low3: "\<forall>a < n0. ?st3 ! a = st ! a"
        proof (intro allI impI)
          fix a assume a: "a < n0"
          then have "a \<notin> set puzzle" using snoc.prems(1) by auto
          then have "?st3 ! a = st2 ! a" using r by (simp add: setCellS_frame)
          with low2 a show "?st3 ! a = st ! a" by simp
        qed
        have inv3: "\<forall>a \<in> set puzzle. n0 \<le> a \<and> a < length ?st3"
          using inv2 by simp
        have len3: "length st \<le> length ?st3" using len2 by simp
        from snoc.IH [OF inv3 xs, of removed "attempts + 1"] d3 low3 len3
        have ih: "case removeLoopS fuel target maxAttempts xs ?st3 puzzle removed (attempts + 1) of
            Inl e \<Rightarrow> removeLoop fuel target maxAttempts xs ?p3 removed (attempts + 1) = Inl e
          | Inr st' \<Rightarrow>
              removeLoop fuel target maxAttempts xs ?p3 removed (attempts + 1) =
                Inr (deref st' puzzle) \<and>
              (\<forall>a < n0. st' ! a = st ! a) \<and> length st \<le> length st'"
          by (auto split: sum.splits)
        have uS: "removeLoopS fuel target maxAttempts (xs @ [x]) st puzzle removed attempts =
            removeLoopS fuel target maxAttempts xs ?st3 puzzle removed (attempts + 1)"
          by (subst removeLoopS.simps) (simp add: Inr res cp True x nok)
        have uV: "removeLoop fuel target maxAttempts (xs @ [x]) (deref st puzzle) removed attempts =
            removeLoop fuel target maxAttempts xs ?p3 removed (attempts + 1)"
          by (subst removeLoop.simps) (simp add: s True x nok)
        show ?thesis unfolding uS uV by (rule ih)
      qed
    qed
  qed
qed

lemma removeNumbersS_refines:
  assumes "\<forall>a \<in> set board. a < length st"
  shows "case removeNumbersS fuel st board difficulty rng of
      Inl e \<Rightarrow> removeNumbers fuel (deref st board) difficulty rng = Inl e
    | Inr (puzzle, st', rng') \<Rightarrow>
        removeNumbers fuel (deref st board) difficulty rng = Inr (deref st' puzzle, rng') \<and>
        (\<forall>a < length st. st' ! a = st ! a)"
proof -
  obtain puzzle st1 where cp: "boardCopyS st board = (puzzle, st1)"
    by (cases "boardCopyS st board")
  note c = boardCopyS_props [OF cp assms]
  obtain cells rng' where sh: "shuffleArray (allCells (length board)) rng = (cells, rng')"
    by (cases "shuffleArray (allCells (length board)) rng")
  have "set cells = set (allCells (length board))"
    using shuffleArray_set [of "allCells (length board)" rng] sh by simp
  moreover have "length puzzle = length board"
    using cp by (auto simp: boardCopyS_def)
  ultimately have cells: "\<forall>(r, c) \<in> set cells. r < length puzzle"
    by (auto simp: allCells_set)
  have inv: "\<forall>a \<in> set puzzle. length st \<le> a \<and> a < length st1" using c(3) by simp
  let ?target = "targetEmptyCells (length board * length board) difficulty"
  let ?max = "length board * length board * 2"
  note loop = removeLoopS_refines [OF c(2) inv cells, of fuel ?target ?max 0 0, unfolded c(1)]
  show ?thesis
  proof (cases "removeLoopS fuel ?target ?max cells st1 puzzle 0 0")
    case (Inl e)
    with loop cp sh show ?thesis
      by (simp add: removeNumbersS_def removeNumbers_def)
  next
    case (Inr st')
    with loop have "removeLoop fuel ?target ?max cells (deref st board) 0 0 = Inr (deref st' puzzle)"
      and "\<forall>a < length st. st' ! a = st1 ! a"
      by simp_all
    with c(4) Inr cp sh show ?thesis
      by (simp add: removeNumbersS_def removeNumbers_def)
  qed
qed

section \<open>Properties of the predicates, the solver and the character lookup\<close>

text \<open>
  C3. Whenever \<open>fillBoard\<close> or \<open>solveWithStrategies\<close> returns false, the board it hands back
  is the board it was handed, cell for cell.
\<close>

theorem failed_search_restores_board:
  "(fillBoard fuel board rng = Inr (False, b1, rng') \<longrightarrow> b1 = board) \<and>
   (solveWithStrategies fuel board used = Inr (False, b2, used') \<longrightarrow> b2 = board)"
  using fill_restores solve_restores by blast

theorem failed_search_restores_board_witness:
  "fillBoard 3 [[Some 0, Some 0], [Some 1, Some 1]] [] =
     Inr (False, [[Some 0, Some 0], [Some 1, Some 1]], []) \<and>
   solveWithStrategies 3 [[Some 0, Some 0], [Some 1, Some 1]] {} =
     Inr (False, [[Some 0, Some 0], [Some 1, Some 1]], {NakedSingle})"
proof -
  have f: "fillBoard 3 [[Some 0, Some 0], [Some 1, Some 1]] [] =
     Inr (False, [[Some 0, Some 0], [Some 1, Some 1]], [])"
    by code_simp
  have s: "solveWithStrategies 3 [[Some 0, Some 0], [Some 1, Some 1]] {} =
     Inr (False, [[Some 0, Some 0], [Some 1, Some 1]], {NakedSingle})"
    by code_simp
  from f s failed_search_restores_board
    [of 3 "[[Some 0, Some 0], [Some 1, Some 1]]" "[]" "[[Some 0, Some 0], [Some 1, Some 1]]" "[]"
       "{}" "[[Some 0, Some 0], [Some 1, Some 1]]" "{NakedSingle}"]
  show ?thesis by simp
qed

text \<open>
  C4 (as amended). On a square board, \<open>isBoardValid\<close> is true exactly when no row and no
  column holds a non-zero value twice; in particular the empty board is valid. On any
  board it examines the leading window of as many rows and columns as the board has rows,
  a missing cell reading as \<open>undefined\<close>, which is a non-zero value like any other.
\<close>

theorem isBoardValid_square:
  "(square n board \<longrightarrow> isBoardValid board = specNoDuplicates board) \<and>
   (isBoardValid board \<longleftrightarrow>
      (\<forall>i<length board. distinct (filter (\<lambda>c. c \<noteq> Some 0) (rowCells board i))) \<and>
      (\<forall>j<length board. distinct (filter (\<lambda>c. c \<noteq> Some 0) (colCells board j))))"
  using isBoardValid_square_spec isBoardValid_lines by blast

theorem isBoardValid_square_witness:
  "square 2 [[Some 1, Some 2], [Some 3, Some 4]] \<and>
   isBoardValid [[Some 1, Some 2], [Some 3, Some 4]] \<and>
   specNoDuplicates [[Some 1, Some 2], [Some 3, Some 4]] \<and>
   square 0 [] \<and> isBoardValid []"
proof -
  have sq: "square 2 [[Some 1, Some 2], [Some 3, Some 4]]" "square 0 []"
    by (simp_all add: square_def)
  have sp: "specNoDuplicates [[Some 1, Some 2], [Some 3, Some 4]]" "specNoDuplicates []"
    by code_simp+
  from sq sp isBoardValid_square [of 2 "[[Some 1, Some 2], [Some 3, Some 4]]"]
    isBoardValid_square [of 0 "[]"]
  show ?thesis by simp
qed

theorem isBoardValid_counterexample:
  "(isBoardValid [[Some 1, Some 2, Some 2]] \<and> \<not> specNoDuplicates [[Some 1, Some 2, Some 2]]) \<and>
   (length [[Some 1, Some 1, Some 3], [Some 2, Some 2, Some (4::int)]]
      < length (hd [[Some 1, Some 1, Some 3], [Some 2, Some 2, Some (4::int)]]) \<and>
    \<not> isBoardValid [[Some 1, Some 1, Some 3], [Some 2, Some 2, Some 4]])"
  by code_simp

text \<open>
  C5 (as amended). On a square board, for a row and a column of the board,
  \<open>isValidPlacement\<close> returns true exactly when the value occurs at no other cell of the
  row, at no other cell of the column, and not at the target cell either: the target cell
  is examined like every other cell of its row and column.
\<close>

theorem isValidPlacement_square:
  assumes "square n board" "row < n" "col < n"
  shows "isValidPlacement board row col v =
     Inr (specValidPlacement board row col v \<and> cellAt board row col \<noteq> Some v)"
proof -
  have len: "length board = n" "length (board ! row) = n"
    using assms by (auto simp: square_def list_all_length)
  have "rowHas board row v \<longleftrightarrow> (\<exists>j<n. board ! row ! j = Some v)"
    using assms len by (auto simp: rowHas_iff square_cellAt)
  moreover have "colHas board col v \<longleftrightarrow> (\<exists>i<n. cellAt board i col = Some v)"
    using len by (simp add: colHas_iff)
  moreover have "specValidPlacement board row col v \<longleftrightarrow>
      (\<forall>j<n. j = col \<or> board ! row ! j \<noteq> Some v) \<and> (\<forall>i<n. i = row \<or> cellAt board i col \<noteq> Some v)"
    using len by (auto simp: specValidPlacement_def list_all_iff cellAt_def)
  moreover have "cellAt board row col = board ! row ! col"
    using assms by (simp add: square_cellAt)
  ultimately show ?thesis
    using assms len by (auto simp: isValidPlacement_in_range)
qed

theorem isValidPlacement_square_witness:
  "square 2 [[Some 1, Some 2], [Some 0, Some 0]] \<and> (1::nat) < 2 \<and> (0::nat) < 2 \<and>
   isValidPlacement [[Some 1, Some 2], [Some 0, Some 0]] 1 0 2 = Inr True \<and>
   isValidPlacement [[Some 1, Some 2], [Some 0, Some 0]] 0 0 1 = Inr False"
proof -
  have sq: "square 2 [[Some 1, Some 2], [Some 0, Some 0]]"
    by (simp add: square_def)
  have a: "specValidPlacement [[Some 1, Some 2], [Some 0, Some 0]] 1 0 2 \<and>
      cellAt [[Some 1, Some 2], [Some 0, Some 0]] 1 0 \<noteq> Some 2"
    by code_simp
  have b: "\<not> cellAt [[Some 1, Some 2], [Some 0, Some 0]] 0 0 \<noteq> Some 1"
    by code_simp
  from sq a b isValidPlacement_square [of 2 "[[Some 1, Some 2], [Some 0, Some 0]]" 1 0 2]
    isValidPlacement_square [of 2 "[[Some 1, Some 2], [Some 0, Some 0]]" 0 0 1]
  show ?thesis by simp
qed

theorem isValidPlacement_counterexample:
  "specValidPlacement [[Some 1, Some 2], [Some 2, Some 1]] 0 0 1 \<and>
   isValidPlacement [[Some 1, Some 2], [Some 2, Some 1]] 0 0 1 = Inr False"
  by code_simp



text \<open>
  C10. For a value with no entry in the table of the selected variant, and so for every
  value outside 1..9, \<open>getHebrewChar\<close> returns the record with an empty \<open>char\<close>, the colour
  \<open>#000000\<close> and the value 0, whatever the variant.
\<close>

theorem getHebrewChar_sentinel:
  "((\<forall>c \<in> set (sourceOf variant). val c \<noteq> v) \<longrightarrow>
      getHebrewChar v variant = \<lparr>char = [], color = ''#000000'', val = 0\<rparr>) \<and>
   (v < 1 \<or> 9 < v \<longrightarrow>
      getHebrewChar v variant = \<lparr>char = [], color = ''#000000'', val = 0\<rparr>)"
proof -
  have "v < 1 \<or> 9 < v \<Longrightarrow> \<forall>c \<in> set (sourceOf variant). val c \<noteq> v"
    using sourceOf_vals [of variant] by (metis atLeastAtMost_iff image_eqI not_le)
  then show ?thesis
    using getHebrewChar_no_entry by blast
qed

theorem getHebrewChar_sentinel_witness:
  "(9::int) < 999 \<and> getHebrewChar 999 ''alphabet'' = \<lparr>char = [], color = ''#000000'', val = 0\<rparr>"
  using getHebrewChar_sentinel [of "''alphabet''" 999] by simp

section \<open>Properties of the puzzle generator\<close>

text \<open>
  C2. For a fully filled valid board of \<open>n\<close> rows and \<open>n\<close> columns and any difficulty
  string, \<open>removeNumbers\<close> (the solver's recursion budget above \<open>n * n\<close>) returns a board on
  which \<open>isBoardValid\<close> is true and which holds at most \<open>floor (n * n * f)\<close> zeros, \<open>f\<close> being
  2/5 for \<open>easy\<close>, 3/5 for \<open>medium\<close>, 3/4 for \<open>hard\<close> and 2/5 for any other string.
\<close>

theorem removeNumbers_valid_and_bounded:
  assumes "square n board" "list_all (\<lambda>row. Some 0 \<notin> set row) board" "isBoardValid board"
    "n * n < fuel"
  shows "\<exists>puzzle rng'. removeNumbers fuel board difficulty rng = Inr (puzzle, rng') \<and>
     isBoardValid puzzle \<and>
     zeroCells puzzle \<le>
       (if difficulty = ''easy'' then (n * n * 2) div 5
        else if difficulty = ''medium'' then (n * n * 3) div 5
        else if difficulty = ''hard'' then (n * n * 3) div 4
        else (n * n * 2) div 5)"
proof -
  have len: "length board = n" using assms(1) by (simp add: square_def)
  from removeNumbers_inv [of board fuel difficulty rng] assms(4) len
  obtain puzzle rng' where r: "removeNumbers fuel board difficulty rng = Inr (puzzle, rng')"
    and v: "isBoardValid board \<longrightarrow> isBoardValid puzzle"
    and sq: "square n board \<longrightarrow> square n puzzle"
    and e: "emptyCount puzzle \<le> emptyCount board + targetEmptyCells (n * n) difficulty"
    by auto
  have "zeroCells puzzle = emptyCount puzzle"
    using sq assms(1) by (simp add: square_zeroCells)
  with e full_emptyCount [OF assms(1,2)]
  have "zeroCells puzzle \<le> targetEmptyCells (n * n) difficulty" by simp
  with r v assms(3) show ?thesis
    by (auto simp: targetEmptyCells_def)
qed

theorem removeNumbers_valid_and_bounded_witness:
  "square 2 [[Some 1, Some 2], [Some 2, Some 1]] \<and>
   list_all (\<lambda>row. Some 0 \<notin> set row) [[Some (1::int), Some 2], [Some 2, Some 1]] \<and>
   isBoardValid [[Some 1, Some 2], [Some 2, Some 1]] \<and> (2::nat) * 2 < 5 \<and>
   removeNumbers 5 [[Some 1, Some 2], [Some 2, Some 1]] ''hard'' [3, 1] =
     Inr ([[Some 0, Some 0], [Some 2, Some 0]], []) \<and>
   isBoardValid [[Some 0, Some 0], [Some 2, Some 0]] \<and>
   zeroCells [[Some 0, Some 0], [Some 2, Some 0]] \<le> 3"
proof -
  have sq: "square 2 [[Some 1, Some 2], [Some 2, Some 1]]"
    by (simp add: square_def)
  have full: "list_all (\<lambda>row. Some 0 \<notin> set row) [[Some (1::int), Some 2], [Some 2, Some 1]]"
    by simp
  have valid: "isBoardValid [[Some 1, Some 2], [Some 2, Some 1]]"
    by code_simp
  have fuel: "(2::nat) * 2 < 5" by simp
  have run: "removeNumbers 5 [[Some 1, Some 2], [Some 2, Some 1]] ''hard'' [3, 1] =
     Inr ([[Some 0, Some 0], [Some 2, Some 0]], [])"
    by code_simp
  from removeNumbers_valid_and_bounded [OF sq full valid fuel, of "''hard''" "[3, 1]"] run
  have "isBoardValid [[Some 0, Some 0], [Some 2, Some 0]] \<and>
     zeroCells [[Some 0, Some 0], [Some 2, Some 0]] \<le> 3"
    by simp
  with sq full valid fuel run show ?thesis by simp
qed



section \<open>Properties of board generation and completion\<close>

text \<open>
  C1. For every board size \<open>n\<close>, the sizes 4 to 9 among them, and every sequence of random
  draws, \<open>generateBoard\<close> (the filler's recursion budget above \<open>n * n\<close>) returns a board of
  \<open>n\<close> rows of \<open>n\<close> cells, every cell holding a value from 1 to \<open>n\<close>, on which
  \<open>isBoardValid\<close> is true.
\<close>

theorem generateBoard_full_valid:
  assumes "n * n < fuel"
  shows "\<exists>board rng'. generateBoard fuel n rng = Inr (board, rng') \<and>
     square n board \<and> cellsWithin n board \<and> zeroCells board = 0 \<and> isBoardValid board"
proof -
  from generateBoard_result [OF assms, of rng] obtain board rng' where
    g: "generateBoard fuel n rng = Inr (board, rng')" "square n board" "cellsWithin n board"
      "isBoardValid board"
    by blast
  have "list_all (\<lambda>row. Some 0 \<notin> set row) board"
    using g(3) by (fastforce simp: cellsWithin_def list_all_iff split: option.splits)
  then have "zeroCells board = 0"
    using full_emptyCount [OF g(2)] square_zeroCells [OF g(2)] by simp
  with g show ?thesis by blast
qed

theorem generateBoard_full_valid_witness:
  "(4::nat) * 4 < 17 \<and>
   generateBoard 17 4 [1] =
     Inr ([[Some 4, Some 2, Some 3, Some 1], [Some 2, Some 3, Some 1, Some 4],
           [Some 3, Some 1, Some 4, Some 2], [Some 1, Some 4, Some 2, Some 3]], []) \<and>
   cellsWithin 4 [[Some 4, Some 2, Some 3, Some 1], [Some 2, Some 3, Some 1, Some 4],
           [Some 3, Some 1, Some 4, Some 2], [Some 1, Some 4, Some 2, Some 3]] \<and>
   isBoardValid [[Some 4, Some 2, Some 3, Some 1], [Some 2, Some 3, Some 1, Some 4],
           [Some 3, Some 1, Some 4, Some 2], [Some 1, Some 4, Some 2, Some 3]]"
proof -
  have fuel: "(4::nat) * 4 < 17" by simp
  have run: "generateBoard 17 4 [1] =
     Inr ([[Some 4, Some 2, Some 3, Some 1], [Some 2, Some 3, Some 1, Some 4],
           [Some 3, Some 1, Some 4, Some 2], [Some 1, Some 4, Some 2, Some 3]], [])"
    by code_simp
  from generateBoard_full_valid [OF fuel, of "[1]"] run fuel show ?thesis
    by simp
qed

text \<open>The puzzle \<open>removeNumbers\<close> makes of the board \<open>generateBoard\<close> makes with the draws 1,
  0, 0, ...: when every draw is 0 each pass of \<open>completeBoard\<close> places 4, 3, 4, 2 and finds
  no value for the cell in row 2, column 3, so every pass restarts, whatever the stack.\<close>

lemma dead_end_every_pass:
  "completeBoard stack
     [[Some 0, Some 2, Some 3, Some 1], [Some 2, Some 3, Some 1, Some 4],
      [Some 0, Some 0, Some 0, Some 0], [Some 0, Some 0, Some 0, Some 0]] [] = Inl RangeError"
proof (induction stack)
  case 0
  show ?case by simp
next
  case (Suc stack)
  let ?P = "[[Some 0, Some 2, Some 3, Some 1], [Some 2, Some 3, Some 1, Some 4],
      [Some 0, Some 0, Some 0, Some 0], [Some 0, Some 0, Some 0, Some (0::int)]]"
  have pass: "fillEmptyCells (length ?P)
      (filter (\<lambda>(i, j). cellAt (boardCopy ?P) i j = Some 0) (allCells (length ?P)))
      (boardCopy ?P) [] = Inr (None, [])"
    by code_simp
  have "completeBoard (Suc stack) ?P [] = completeBoard stack (boardCopy ?P) []"
    unfolding completeBoard.simps pass by (simp only: sum.case prod.case option.case)
  also have "\<dots> = Inl RangeError"
    using Suc.IH by (simp only: boardCopy_id)
  finally show ?case .
qed

text \<open>
  C6 (as amended). For a board obtained as \<open>removeNumbers\<close> applied to a \<open>generateBoard\<close>
  result: whatever the random draws so far, some draws after them make \<open>completeBoard\<close>
  return, the stack having room for the passes that dead-end before (a dead end restarts
  the pass on the original board with the draws that follow); whenever \<open>completeBoard\<close>
  returns, whatever the draws and the stack, it returns a board with no zero cell on which
  \<open>isBoardValid\<close> is true; and when it does not return, it has exhausted the call stack
  and thrown \<open>RangeError\<close>. That it returns for every sequence of draws does not hold.
\<close>

theorem completeBoard_retries_full_valid:
  assumes "n * n < fuel1" "generateBoard fuel1 n rng1 = Inr (full, rng2)"
    and "n * n < fuel2" "removeNumbers fuel2 full difficulty rng3 = Inr (puzzle, rng4)"
  shows "(\<forall>draws. \<exists>more stack b' rng'.
            completeBoard stack puzzle (draws @ more) = Inr (b', rng')) \<and>
    (\<forall>stack rng b' rng'. completeBoard stack puzzle rng = Inr (b', rng') \<longrightarrow>
       square n b' \<and> cellsWithin n b' \<and> zeroCells b' = 0 \<and> isBoardValid b') \<and>
    (\<forall>stack rng e. completeBoard stack puzzle rng = Inl e \<longrightarrow> e = RangeError)"
proof -
  note p = generateBoard_removeNumbers_puzzle [OF assms]
  have can: "\<exists>more stack b' rng'. completeBoard stack puzzle (draws @ more) = Inr (b', rng')"
    for draws
    by (rule completeBoard_can_still_return [OF p(1,2,3,4,6)])
  have good: "square n b' \<and> cellsWithin n b' \<and> zeroCells b' = 0 \<and> isBoardValid b'"
    if "completeBoard stack puzzle rng = Inr (b', rng')" for stack rng b' rng'
  proof -
    from completeBoard_sound [OF that p(4,5,7)] have
      r: "square n b'" "isBoardValid b'"
        "\<forall>i<n. \<forall>j<n. \<exists>v. cellAt b' i j = Some v \<and> 1 \<le> v \<and> v \<le> int n"
      by blast+
    then have w: "cellsWithin n b'" by (simp add: cellsWithin_iff)
    then have "list_all (\<lambda>row. Some 0 \<notin> set row) b'"
      by (fastforce simp: cellsWithin_def list_all_iff split: option.splits)
    then have "zeroCells b' = 0"
      using full_emptyCount [OF r(1)] square_zeroCells [OF r(1)] by simp
    with r w show ?thesis by simp
  qed
  have fail: "e = RangeError" if "completeBoard stack puzzle rng = Inl e" for stack rng e
    by (rule completeBoard_failure [OF that p(4)])
  from can good fail show ?thesis by blast
qed

theorem completeBoard_retries_full_valid_witness:
  "(4::nat) * 4 < 17 \<and>
   generateBoard 17 4 [1] =
     Inr ([[Some 4, Some 2, Some 3, Some 1], [Some 2, Some 3, Some 1, Some 4],
           [Some 3, Some 1, Some 4, Some 2], [Some 1, Some 4, Some 2, Some 3]], []) \<and>
   removeNumbers 17 [[Some 4, Some 2, Some 3, Some 1], [Some 2, Some 3, Some 1, Some 4],
           [Some 3, Some 1, Some 4, Some 2], [Some 1, Some 4, Some 2, Some 3]] ''medium'' [] =
     Inr ([[Some 0, Some 2, Some 3, Some 1], [Some 2, Some 3, Some 1, Some 4],
           [Some 0, Some 0, Some 0, Some 0], [Some 0, Some 0, Some 0, Some 0]], []) \<and>
   completeBoard 2 [[Some 0, Some 2, Some 3, Some 1], [Some 2, Some 3, Some 1, Some 4],
           [Some 0, Some 0, Some 0, Some 0], [Some 0, Some 0, Some 0, Some 0]]
       [0, 0, 0, 0, 0, 0, 0, 0, 0, 0, 0, 0, 0, 0, 0, 1, 3, 2, 2] =
     Inr ([[Some 4, Some 2, Some 3, Some 1], [Some 2, Some 3, Some 1, Some 4],
           [Some 1, Some 4, Some 2, Some 3], [Some 3, Some 1, Some 4, Some 2]], []) \<and>
   completeBoard 1 [[Some 0, Some 2, Some 3, Some 1], [Some 2, Some 3, Some 1, Some 4],
           [Some 0, Some 0, Some 0, Some 0], [Some 0, Some 0, Some 0, Some 0]]
       [0, 0, 0, 0, 0, 0, 0, 0, 0, 0, 0, 0, 0, 0, 0, 1, 3, 2, 2] = Inl RangeError \<and>
   zeroCells [[Some 4, Some 2, Some 3, Some 1], [Some 2, Some 3, Some 1, Some 4],
           [Some 1, Some 4, Some 2, Some 3], [Some 3, Some 1, Some 4, Some 2]] = 0 \<and>
   isBoardValid [[Some 4, Some 2, Some 3, Some 1], [Some 2, Some 3, Some 1, Some 4],
           [Some 1, Some 4, Some 2, Some 3], [Some 3, Some 1, Some 4, Some 2]]"
proof -
  have fuel: "(4::nat) * 4 < 17" by simp
  have gen: "generateBoard 17 4 [1] =
     Inr ([[Some 4, Some 2, Some 3, Some 1], [Some 2, Some 3, Some 1, Some 4],
           [Some 3, Some 1, Some 4, Some 2], [Some 1, Some 4, Some 2, Some 3]], [])"
    by code_simp
  have rem: "removeNumbers 17 [[Some 4, Some 2, Some 3, Some 1], [Some 2, Some 3, Some 1, Some 4],
           [Some 3, Some 1, Some 4, Some 2], [Some 1, Some 4, Some 2, Some 3]] ''medium'' [] =
     Inr ([[Some 0, Some 2, Some 3, Some 1], [Some 2, Some 3, Some 1, Some 4],
           [Some 0, Some 0, Some 0, Some 0], [Some 0, Some 0, Some 0, Some 0]], [])"
    by code_simp
  have run: "completeBoard 2 [[Some 0, Some 2, Some 3, Some 1], [Some 2, Some 3, Some 1, Some 4],
           [Some 0, Some 0, Some 0, Some 0], [Some 0, Some 0, Some 0, Some 0]]
       [0, 0, 0, 0, 0, 0, 0, 0, 0, 0, 0, 0, 0, 0, 0, 1, 3, 2, 2] =
     Inr ([[Some 4, Some 2, Some 3, Some 1], [Some 2, Some 3, Some 1, Some 4],
           [Some 1, Some 4, Some 2, Some 3], [Some 3, Some 1, Some 4, Some 2]], [])"
    by code_simp
  have short: "completeBoard 1 [[Some 0, Some 2, Some 3, Some 1], [Some 2, Some 3, Some 1, Some 4],
           [Some 0, Some 0, Some 0, Some 0], [Some 0, Some 0, Some 0, Some 0]]
       [0, 0, 0, 0, 0, 0, 0, 0, 0, 0, 0, 0, 0, 0, 0, 1, 3, 2, 2] = Inl RangeError"
    by code_simp
  from completeBoard_retries_full_valid [OF fuel gen fuel rem] run
  have "zeroCells [[Some 4, Some 2, Some 3, Some 1], [Some 2, Some 3, Some 1, Some 4],
           [Some 1, Some 4, Some 2, Some 3], [Some 3, Some 1, Some 4, Some 2]] = 0 \<and>
   isBoardValid [[Some 4, Some 2, Some 3, Some 1], [Some 2, Some 3, Some 1, Some 4],
           [Some 1, Some 4, Some 2, Some 3], [Some 3, Some 1, Some 4, Some 2]]"
    by blast
  with fuel gen rem run short show ?thesis by simp
qed

theorem completeBoard_counterexample:
  "generateBoard 17 4 [1] =
     Inr ([[Some 4, Some 2, Some 3, Some 1], [Some 2, Some 3, Some 1, Some 4],
           [Some 3, Some 1, Some 4, Some 2], [Some 1, Some 4, Some 2, Some 3]], []) \<and>
   removeNumbers 17 [[Some 4, Some 2, Some 3, Some 1], [Some 2, Some 3, Some 1, Some 4],
           [Some 3, Some 1, Some 4, Some 2], [Some 1, Some 4, Some 2, Some 3]] ''medium'' [] =
     Inr ([[Some 0, Some 2, Some 3, Some 1], [Some 2, Some 3, Some 1, Some 4],
           [Some 0, Some 0, Some 0, Some 0], [Some 0, Some 0, Some 0, Some 0]], []) \<and>
   completeBoard 10000 [[Some 0, Some 2, Some 3, Some 1], [Some 2, Some 3, Some 1, Some 4],
           [Some 0, Some 0, Some 0, Some 0], [Some 0, Some 0, Some 0, Some 0]] [] =
     Inl RangeError"
proof -
  have gen: "generateBoard 17 4 [1] =
     Inr ([[Some 4, Some 2, Some 3, Some 1], [Some 2, Some 3, Some 1, Some 4],
           [Some 3, Some 1, Some 4, Some 2], [Some 1, Some 4, Some 2, Some 3]], [])"
    by code_simp
  have rem: "removeNumbers 17 [[Some 4, Some 2, Some 3, Some 1], [Some 2, Some 3, Some 1, Some 4],
           [Some 3, Some 1, Some 4, Some 2], [Some 1, Some 4, Some 2, Some 3]] ''medium'' [] =
     Inr ([[Some 0, Some 2, Some 3, Some 1], [Some 2, Some 3, Some 1, Some 4],
           [Some 0, Some 0, Some 0, Some 0], [Some 0, Some 0, Some 0, Some 0]], [])"
    by code_simp
  from gen rem dead_end_every_pass [of 10000] show ?thesis by simp
qed

text \<open>
  C9. \<open>removeNumbers\<close> (the solver's recursion budget above the number of cells) leaves
  every row array that existed before the call as it was, so the board it was handed is
  unchanged, and the puzzle it returns is that board with some cells replaced by 0: the
  same number of rows, and every cell of the puzzle holds 0 or what the board holds there.
\<close>

theorem removeNumbers_leaves_board:
  assumes "\<forall>a \<in> set board. a < length st" "length board * length board < fuel"
  shows "\<exists>puzzle st' rng'.
     removeNumbersS fuel st board difficulty rng = Inr (puzzle, st', rng') \<and>
     (\<forall>a < length st. st' ! a = st ! a) \<and>
     deref st' board = deref st board \<and>
     removeNumbers fuel (deref st board) difficulty rng = Inr (deref st' puzzle, rng') \<and>
     agreesOffZero (deref st' puzzle) (deref st board)"
proof -
  have "length (deref st board) * length (deref st board) < fuel"
    using assms(2) by simp
  from removeNumbers_inv [OF this, of difficulty rng] obtain out rng' where
    v: "removeNumbers fuel (deref st board) difficulty rng = Inr (out, rng')"
      "agreesOffZero out (deref st board)"
    by blast
  note r = removeNumbersS_refines [OF assms(1), of fuel difficulty rng]
  show ?thesis
  proof (cases "removeNumbersS fuel st board difficulty rng")
    case (Inl e)
    with r v show ?thesis by simp
  next
    case (Inr res)
    obtain puzzle st' rng'' where res: "res = (puzzle, st', rng'')" by (cases res)
    from r Inr res have
      eq: "removeNumbers fuel (deref st board) difficulty rng = Inr (deref st' puzzle, rng'')"
      and frame: "\<forall>a < length st. st' ! a = st ! a"
      by simp_all
    from frame assms(1) have "deref st' board = deref st board"
      by (simp add: deref_def)
    moreover from eq v have "agreesOffZero (deref st' puzzle) (deref st board)" by simp
    ultimately show ?thesis using Inr res eq frame by blast
  qed
qed

theorem removeNumbers_leaves_board_witness:
  "list_all (\<lambda>a. a < length [[Some (1::int), Some 2], [Some 2, Some 1]]) [0, 1] \<and>
   length [0::nat, 1] * length [0::nat, 1] < 5 \<and>
   removeNumbersS 5 [[Some 1, Some 2], [Some 2, Some 1]] [0, 1] ''hard'' [3, 1] =
     Inr ([2, 3],
          [[Some 1, Some 2], [Some 2, Some 1], [Some 0, Some 0], [Some 2, Some 0],
           [Some 1, Some 2], [Some 2, Some 1], [Some 1, Some 2], [Some 2, Some 1],
           [Some 1, Some 2], [Some 2, Some 1]], []) \<and>
   removeNumbers 5 [[Some 1, Some 2], [Some 2, Some 1]] ''hard'' [3, 1] =
     Inr ([[Some 0, Some 0], [Some 2, Some 0]], []) \<and>
   agreesOffZero [[Some 0, Some 0], [Some 2, Some 0]] [[Some 1, Some 2], [Some 2, Some 1]]"
proof -
  let ?st = "[[Some (1::int), Some 2], [Some 2, Some 1]]"
  let ?st' = "[[Some 1, Some 2], [Some 2, Some 1], [Some 0, Some 0], [Some 2, Some 0],
           [Some 1, Some 2], [Some 2, Some 1], [Some 1, Some 2], [Some 2, Some 1],
           [Some 1, Some 2], [Some 2, Some (1::int)]]"
  have rows: "\<forall>a \<in> set [0, 1]. a < length ?st" by simp
  have fuel: "length [0::nat, 1] * length [0::nat, 1] < 5" by simp
  have run: "removeNumbersS 5 ?st [0, 1] ''hard'' [3, 1] = Inr ([2, 3], ?st', [])"
    by code_simp
  have d: "deref ?st [0, 1] = ?st" "deref ?st' [2, 3] = [[Some 0, Some 0], [Some 2, Some 0]]"
    by (simp_all add: deref_def)
  from removeNumbers_leaves_board [OF rows fuel, of "''hard''" "[3, 1]"] run d
  have "removeNumbers 5 ?st ''hard'' [3, 1] = Inr ([[Some 0, Some 0], [Some 2, Some 0]], []) \<and>
     agreesOffZero [[Some 0, Some 0], [Some 2, Some 0]] ?st"
    by simp
  with rows fuel run show ?thesis by simp
qed

end
